theory Spec2Isabelle
  imports Main "HOL-Library.Sublist"
begin

section \<open>Text and character classes\<close>

text \<open>
  A Python \<open>str\<close> is modelled as a list of code points; the code points are those of
  Isabelle's \<open>char\<close> (0 to 255), on which the classes of the \<open>re\<close> module and of
  \<open>str.strip\<close> are written out: white space is what \<open>str.isspace\<close> accepts, a digit
  is a decimal digit, a word character is an alphanumeric character or the underscore.
\<close>

definition code :: "char \<Rightarrow> nat" where
  "code c = of_char c"

definition is_space :: "char \<Rightarrow> bool" where
  "is_space c = (let n = code c in
     (9 \<le> n \<and> n \<le> 13) \<or> (28 \<le> n \<and> n \<le> 32) \<or> n = 133 \<or> n = 160)"

definition is_digit :: "char \<Rightarrow> bool" where
  "is_digit c = (let n = code c in 48 \<le> n \<and> n \<le> 57)"

definition is_word :: "char \<Rightarrow> bool" where
  "is_word c = (let n = code c in
     (48 \<le> n \<and> n \<le> 57) \<or> (65 \<le> n \<and> n \<le> 90) \<or> n = 95 \<or> (97 \<le> n \<and> n \<le> 122) \<or>
     n = 170 \<or> n = 178 \<or> n = 179 \<or> n = 181 \<or> n = 185 \<or> n = 186 \<or>
     n = 188 \<or> n = 189 \<or> n = 190 \<or>
     (192 \<le> n \<and> n \<le> 214) \<or> (216 \<le> n \<and> n \<le> 246) \<or> (248 \<le> n \<and> n \<le> 255))"

definition lower :: "char \<Rightarrow> char" where
  "lower c = (let n = code c in
     if (65 \<le> n \<and> n \<le> 90) \<or> (192 \<le> n \<and> n \<le> 214) \<or> (216 \<le> n \<and> n \<le> 222)
     then char_of (n + 32) else c)"

definition newline :: char where
  "newline = CHR 0x0A"

text \<open>\<open>str.lstrip()\<close>, \<open>str.rstrip()\<close> and \<open>str.strip()\<close> without argument.\<close>

definition lstrip :: "string \<Rightarrow> string" where
  "lstrip s = dropWhile is_space s"

definition rstrip :: "string \<Rightarrow> string" where
  "rstrip s = rev (dropWhile is_space (rev s))"

definition strip :: "string \<Rightarrow> string" where
  "strip s = lstrip (rstrip s)"

section \<open>Regular expressions of the \<open>re\<close> module\<close>

text \<open>
  Every pattern of the program is a sequence of items: a character (literal, or one of the
  classes \<open>\s\<close>, \<open>\w\<close>, \<open>\d\<close>, \<open>.\<close>), such a character under \<open>?\<close>, \<open>*\<close>,
  \<open>+\<close> or \<open>*?\<close>, or the anchor \<open>$\<close>. \<open>LitI\<close> is a literal under \<open>re.IGNORECASE\<close>,
  \<open>AnyChar\<close> is \<open>.\<close> under \<open>re.DOTALL\<close>.
\<close>

datatype cclass = Lit char | LitI char | Space | Word | Digit | Dot | AnyChar

datatype atom = One cclass | Opt cclass | Star cclass | Plus cclass | LazyStar cclass | Eos

type_synonym regex = "atom list"

fun cmatch :: "cclass \<Rightarrow> char \<Rightarrow> bool" where
  "cmatch (Lit c) x = (x = c)"
| "cmatch (LitI c) x = (lower x = lower c)"
| "cmatch Space x = is_space x"
| "cmatch Word x = is_word x"
| "cmatch Digit x = is_digit x"
| "cmatch Dot x = (x \<noteq> newline)"
| "cmatch AnyChar x = True"

text \<open>
  The backtracking matcher: \<open>mt p s\<close> matches the pattern at the start of \<open>s\<close> and
  returns the number of characters of the first match the engine finds, trying the longer
  repetition first for the greedy \<open>?\<close>, \<open>*\<close> and \<open>+\<close> and the shorter first for \<open>*?\<close>.
  \<open>$\<close> holds at the end of the text and before a newline that ends it.
\<close>

fun mt :: "regex \<Rightarrow> string \<Rightarrow> nat option" where
  "mt [] s = Some 0"
| "mt (One c # p) s =
     (case s of [] \<Rightarrow> None
      | x # xs \<Rightarrow> if cmatch c x then map_option Suc (mt p xs) else None)"
| "mt (Opt c # p) s =
     (case s of [] \<Rightarrow> mt p s
      | x # xs \<Rightarrow>
          if cmatch c x
          then (case mt p xs of Some n \<Rightarrow> Some (Suc n) | None \<Rightarrow> mt p s)
          else mt p s)"
| "mt (Star c # p) s =
     (case s of [] \<Rightarrow> mt p s
      | x # xs \<Rightarrow>
          if cmatch c x
          then (case mt (Star c # p) xs of Some n \<Rightarrow> Some (Suc n) | None \<Rightarrow> mt p s)
          else mt p s)"
| "mt (Plus c # p) s =
     (case s of [] \<Rightarrow> None
      | x # xs \<Rightarrow> if cmatch c x then map_option Suc (mt (Star c # p) xs) else None)"
| "mt (LazyStar c # p) s =
     (case mt p s of Some n \<Rightarrow> Some n
      | None \<Rightarrow>
          (case s of [] \<Rightarrow> None
           | x # xs \<Rightarrow>
               if cmatch c x then map_option Suc (mt (LazyStar c # p) xs) else None))"
| "mt (Eos # p) s = (if s = [] \<or> s = [newline] then mt p s else None)"

text \<open>
  \<open>re.search\<close>: the leftmost position at which the pattern matches, as
  \<open>(match.start(), match.end() - match.start())\<close>.
\<close>

fun re_search :: "regex \<Rightarrow> string \<Rightarrow> (nat \<times> nat) option" where
  "re_search p [] = map_option (\<lambda>n. (0, n)) (mt p [])"
| "re_search p (x # xs) =
     (case mt p (x # xs) of Some n \<Rightarrow> Some (0, n)
      | None \<Rightarrow> map_option (\<lambda>(i, n). (Suc i, n)) (re_search p xs))"

definition lit :: "string \<Rightarrow> regex" where
  "lit s = map (\<lambda>c. One (Lit c)) s"

definition liti :: "string \<Rightarrow> regex" where
  "liti s = map (\<lambda>c. One (LitI c)) s"

text \<open>
  \<open>re.sub(pattern, '', text)\<close>: the text is scanned from the left, every match is deleted
  and the scan goes on behind it. (No pattern the program passes can match the empty
  string; at an empty match the scan moves on by one character.)
\<close>

fun re_sub :: "regex \<Rightarrow> string \<Rightarrow> string" where
  "re_sub p [] = []"
| "re_sub p (x # xs) =
     (case mt p (x # xs) of
        None \<Rightarrow> x # re_sub p xs
      | Some 0 \<Rightarrow> x # re_sub p xs
      | Some (Suc n) \<Rightarrow> re_sub p (drop n xs))"

section \<open>The junk-pattern matcher: \<open>clean_body_text\<close>\<close>

definition sp :: regex where
  "sp = [Plus Space]"

definition sp0 :: regex where
  "sp0 = [Star Space]"

definition digits :: regex where
  "digits = [Plus Digit]"

text \<open>The list \<open>cut_patterns\<close>, in the order of the source.\<close>

definition cut_patterns :: "regex list" where
  "cut_patterns =
   [ lit ''Follow'' @ sp @ lit ''@'' @ [Plus Word] @ sp @ lit ''Share'' @ sp @ lit ''Tweet'',
     lit ''Share'' @ sp @ lit ''Tweet'' @ sp @ lit ''React'' @ sp0 @ lit ''('' @ digits @ lit '')'',
     lit ''Top '' @ digits @ lit '' Comments'',
     digits @ lit '' comment'' @ [Opt (Lit CHR ''s'')] @ sp @ lit ''Sort by'',
     lit ''Comments will close out'',
     lit ''Thumbs Up'' @ sp @ lit ''Thumbs Down'' @ sp @ lit ''by'' @ sp,
     lit ''Up:'' @ sp0 @ digits @ sp0 @ lit ''Down:'' @ sp0 @ digits,
     lit ''Leave a Comment'',
     lit ''Tweets'' @ sp @ [LazyStar Dot] @ lit ''http://t.co/'',
     lit ''Tour Dates'' @ sp,
     lit ''Featured Video'' @ sp,
     lit ''View more Videos'',
     [One (Lit (CHR 0xC2)), One (Lit (CHR 0xA9))] @ sp0 @
       [One Digit, One Digit, One Digit, One Digit] @ sp0 @ lit ''Barstool'',
     lit ''Disclaimer'' @ sp0 @ lit ''|'' @ sp0 @ lit ''Copyright'',
     lit ''Media Kit'' @ sp0 @ [Eos],
     lit ''Barstool Sports'' @ sp0 @ lit ''|'' @ sp0 @ lit ''Disclaimer'' ]"

text \<open>The byline pattern, under \<open>re.IGNORECASE\<close>.\<close>

definition byline :: regex where
  "byline = sp0 @ liti ''By'' @ sp @ [Plus Word] @ sp @ liti ''posted'' @ sp @ [Plus Word] @ sp @
     digits @ [Star Dot, Eos]"

text \<open>The navigation pattern, under \<open>re.IGNORECASE | re.DOTALL\<close>.\<close>

definition nav :: regex where
  "nav = liti ''Home'' @ sp @ liti ''The Store'' @ sp @ liti ''BarstoolTV'' @ sp @
     [LazyStar AnyChar] @ liti ''Barstool Sports'' @ sp @ liti ''All Categories'' @ sp"

text \<open>
  The loop over \<open>cut_patterns\<close>: the first pattern of the list that \<open>re.search\<close> finds
  in the text cuts it, and the loop ends (\<open>break\<close>).
\<close>

fun cut_loop :: "regex list \<Rightarrow> string \<Rightarrow> string" where
  "cut_loop [] text = text"
| "cut_loop (pattern # rest) text =
     (case re_search pattern text of
        Some (start, n) \<Rightarrow> rstrip (take start text)
      | None \<Rightarrow> cut_loop rest text)"

definition strip_byline :: "string \<Rightarrow> string" where
  "strip_byline text = rstrip (re_sub byline text)"

definition strip_nav :: "string \<Rightarrow> string" where
  "strip_nav text = (case mt nav text of Some e \<Rightarrow> lstrip (drop e text) | None \<Rightarrow> text)"

text \<open>
  \<open>clean_body_text\<close> on a string (on \<open>None\<close> the source returns \<open>None\<close>; its only
  caller passes a string).
\<close>

definition clean_body_text :: "string \<Rightarrow> string" where
  "clean_body_text text =
     (if text = [] then text
      else strip (strip_nav (strip_byline (cut_loop cut_patterns text))))"

section \<open>The markup sanitizer: \<open>sanitize_html\<close>\<close>

text \<open>
  The parse tree of BeautifulSoup. A \<open>Tag\<close> object carries its identity (the loops of the
  source hold references to the objects they found while they change the tree), its name,
  its attribute dictionary and its contents. The value of an attribute is a string, or a
  list of strings for a multi-valued attribute such as \<open>class\<close>. \<open>Other\<close> stands for the
  strings that are neither text nor comment (doctype, declaration, CDATA section,
  processing instruction).
\<close>

datatype attr_value = Str string | Vals "string list"

datatype node =
    Tag nat string "(string \<times> attr_value) list" "node list"
  | NavigableString string
  | Comment string
  | Other string

type_synonym soup = "node list"

definition ALLOWED_TAGS :: "string list" where
  "ALLOWED_TAGS =
   [''p'', ''br'', ''b'', ''i'', ''em'', ''strong'', ''a'', ''img'', ''h1'', ''h2'', ''h3'',
    ''h4'', ''h5'', ''h6'', ''ul'', ''ol'', ''li'', ''blockquote'', ''pre'', ''code'',
    ''table'', ''thead'', ''tbody'', ''tr'', ''td'', ''th'', ''hr'', ''span'', ''div'',
    ''figure'', ''figcaption'', ''video'', ''source'', ''iframe'']"

definition ALLOWED_ATTRS :: "(string \<times> string list) list" where
  "ALLOWED_ATTRS =
   [(''a'', [''href'', ''target'', ''rel'']),
    (''img'', [''src'', ''alt'', ''width'', ''height'']),
    (''iframe'', [''src'', ''width'', ''height'', ''frameborder'', ''allowfullscreen'']),
    (''video'', [''src'', ''controls'', ''width'', ''height'']),
    (''source'', [''src'', ''type'']),
    (''td'', [''colspan'', ''rowspan'']),
    (''th'', [''colspan'', ''rowspan''])]"

text \<open>\<open>ALLOWED_ATTRS.get(name, set())\<close>.\<close>

definition allowed_attrs :: "string \<Rightarrow> string list" where
  "allowed_attrs name = (case map_of ALLOWED_ATTRS name of Some as \<Rightarrow> as | None \<Rightarrow> [])"

text \<open>
  \<open>JUNK_PATTERN\<close> is an alternation of literals under \<open>re.IGNORECASE\<close>; the program
  only asks whether \<open>search\<close> finds it.
\<close>

definition JUNK_WORDS :: "string list" where
  "JUNK_WORDS =
   [''sidebar'', ''nav'', ''menu'', ''footer'', ''header'', ''comment'', ''social'', ''share'',
    ''related'', ''newsletter'', ''popup'', ''modal'', ''overlay'', ''ad-'', ''advertisement'',
    ''cookie'', ''wm-ipp'', ''wayback'', ''toolbar'', ''donate'']"

definition junk_search :: "string \<Rightarrow> bool" where
  "junk_search s = list_ex (\<lambda>w. re_search (liti w) s \<noteq> None) JUNK_WORDS"

definition NUKED_TAGS :: "string list" where
  "NUKED_TAGS =
   [''script'', ''style'', ''nav'', ''header'', ''footer'', ''noscript'', ''link'', ''meta'',
    ''head'']"

text \<open>\<open>' '.join(xs)\<close>.\<close>

fun join_space :: "string list \<Rightarrow> string" where
  "join_space [] = []"
| "join_space [x] = x"
| "join_space (x # y # ys) = x @ '' '' @ join_space (y # ys)"

text \<open>
  \<open>str(v)\<close> of an attribute value; of a list it is Python's display of the list, written
  here for strings that need no escape (the parser of the program gives \<open>id\<close> a string).
\<close>

fun join_comma :: "string list \<Rightarrow> string" where
  "join_comma [] = []"
| "join_comma [x] = [CHR 0x27] @ x @ [CHR 0x27]"
| "join_comma (x # y # ys) = [CHR 0x27] @ x @ [CHR 0x27] @ '', '' @ join_comma (y # ys)"

fun py_str :: "attr_value \<Rightarrow> string" where
  "py_str (Str s) = s"
| "py_str (Vals vs) = ''['' @ join_comma vs @ '']''"

text \<open>The two strings the junk test of the second loop searches.\<close>

definition classes_of :: "(string \<times> attr_value) list \<Rightarrow> string" where
  "classes_of attrs =
     (case map_of attrs ''class'' of
        None \<Rightarrow> join_space []
      | Some (Vals tag_classes) \<Rightarrow> join_space tag_classes
      | Some (Str tag_classes) \<Rightarrow> (if tag_classes \<noteq> [] then tag_classes else []))"

definition id_of :: "(string \<times> attr_value) list \<Rightarrow> string" where
  "id_of attrs =
     (case map_of attrs ''id'' of
        None \<Rightarrow> []
      | Some (Str tag_id) \<Rightarrow> tag_id
      | Some (Vals tag_id) \<Rightarrow> (if tag_id \<noteq> [] then py_str (Vals tag_id) else []))"

definition is_junk :: "(string \<times> attr_value) list \<Rightarrow> bool" where
  "is_junk attrs = (junk_search (classes_of attrs) \<or> junk_search (id_of attrs))"

text \<open>
  \<open>soup.find_all(...)\<close> returns the tags that match, in document order, before the loop
  body runs; the model lists their identities.
\<close>

fun find_all_node :: "(string \<Rightarrow> bool) \<Rightarrow> node \<Rightarrow> nat list" where
  "find_all_node P (Tag i name attrs contents) =
     (if P name then [i] else []) @ concat (map (find_all_node P) contents)"
| "find_all_node P (NavigableString s) = []"
| "find_all_node P (Comment s) = []"
| "find_all_node P (Other s) = []"

definition find_all :: "(string \<Rightarrow> bool) \<Rightarrow> soup \<Rightarrow> nat list" where
  "find_all P soup = concat (map (find_all_node P) soup)"

text \<open>The attributes and the name of the tag object \<open>i\<close>, if it is still in the tree.\<close>

fun first_some :: "'a option list \<Rightarrow> 'a option" where
  "first_some [] = None"
| "first_some (None # xs) = first_some xs"
| "first_some (Some x # xs) = Some x"

fun get_tag_node :: "nat \<Rightarrow> node \<Rightarrow> (string \<times> (string \<times> attr_value) list) option" where
  "get_tag_node i (Tag j name attrs contents) =
     (if j = i then Some (name, attrs) else first_some (map (get_tag_node i) contents))"
| "get_tag_node i (NavigableString s) = None"
| "get_tag_node i (Comment s) = None"
| "get_tag_node i (Other s) = None"

definition get_tag :: "nat \<Rightarrow> soup \<Rightarrow> (string \<times> (string \<times> attr_value) list) option" where
  "get_tag i soup = first_some (map (get_tag_node i) soup)"

text \<open>\<open>tag.decompose()\<close>: the tag and all it contains leave the tree.\<close>

fun decompose_node :: "nat \<Rightarrow> node \<Rightarrow> node list" where
  "decompose_node i (Tag j name attrs contents) =
     (if j = i then [] else [Tag j name attrs (concat (map (decompose_node i) contents))])"
| "decompose_node i (NavigableString s) = [NavigableString s]"
| "decompose_node i (Comment s) = [Comment s]"
| "decompose_node i (Other s) = [Other s]"

definition decompose :: "nat \<Rightarrow> soup \<Rightarrow> soup" where
  "decompose i soup = concat (map (decompose_node i) soup)"

text \<open>\<open>tag.unwrap()\<close>: the contents of the tag take its place.\<close>

fun unwrap_node :: "nat \<Rightarrow> node \<Rightarrow> node list" where
  "unwrap_node i (Tag j name attrs contents) =
     (if j = i then contents else [Tag j name attrs (concat (map (unwrap_node i) contents))])"
| "unwrap_node i (NavigableString s) = [NavigableString s]"
| "unwrap_node i (Comment s) = [Comment s]"
| "unwrap_node i (Other s) = [Other s]"

definition unwrap :: "nat \<Rightarrow> soup \<Rightarrow> soup" where
  "unwrap i soup = concat (map (unwrap_node i) soup)"

text \<open>\<open>comment.extract()\<close> for every comment of the tree.\<close>

fun extract_comments_node :: "node \<Rightarrow> node list" where
  "extract_comments_node (Tag j name attrs contents) =
     [Tag j name attrs (concat (map extract_comments_node contents))]"
| "extract_comments_node (NavigableString s) = [NavigableString s]"
| "extract_comments_node (Comment s) = []"
| "extract_comments_node (Other s) = [Other s]"

definition extract_comments :: "soup \<Rightarrow> soup" where
  "extract_comments soup = concat (map extract_comments_node soup)"

text \<open>The body of the last loop: \<open>del tag[attr]\<close> for every attribute not allowed.\<close>

fun strip_attrs_node :: "nat \<Rightarrow> node \<Rightarrow> node" where
  "strip_attrs_node i (Tag j name attrs contents) =
     Tag j name
       (if j = i then filter (\<lambda>(attr, v). attr \<in> set (allowed_attrs name)) attrs else attrs)
       (map (strip_attrs_node i) contents)"
| "strip_attrs_node i (NavigableString s) = NavigableString s"
| "strip_attrs_node i (Comment s) = Comment s"
| "strip_attrs_node i (Other s) = Other s"

definition strip_attrs :: "nat \<Rightarrow> soup \<Rightarrow> soup" where
  "strip_attrs i soup = map (strip_attrs_node i) soup"

text \<open>
  The bodies of the second and the fourth loop. A tag that an earlier round decomposed
  has \<open>attrs\<close> \<open>None\<close> and is skipped (\<open>continue\<close>).
\<close>

definition junk_step :: "nat \<Rightarrow> soup \<Rightarrow> soup" where
  "junk_step i soup =
     (case get_tag i soup of
        None \<Rightarrow> soup
      | Some (name, attrs) \<Rightarrow> if is_junk attrs then decompose i soup else soup)"

definition unwrap_step :: "nat \<Rightarrow> soup \<Rightarrow> soup" where
  "unwrap_step i soup =
     (case get_tag i soup of
        None \<Rightarrow> soup
      | Some (name, attrs) \<Rightarrow> if name \<notin> set ALLOWED_TAGS then unwrap i soup else soup)"

text \<open>The five passes of \<open>sanitize_html\<close> over the parsed tree, in the order of the source.\<close>

definition nuke_pass :: "soup \<Rightarrow> soup" where
  "nuke_pass soup = fold decompose (find_all (\<lambda>name. name \<in> set NUKED_TAGS) soup) soup"

definition junk_pass :: "soup \<Rightarrow> soup" where
  "junk_pass soup = fold junk_step (find_all (\<lambda>name. True) soup) soup"

definition unwrap_pass :: "soup \<Rightarrow> soup" where
  "unwrap_pass soup = fold unwrap_step (find_all (\<lambda>name. True) soup) soup"

definition attrs_pass :: "soup \<Rightarrow> soup" where
  "attrs_pass soup = fold strip_attrs (find_all (\<lambda>name. True) soup) soup"

definition sanitize_soup :: "soup \<Rightarrow> soup" where
  "sanitize_soup soup =
     attrs_pass (unwrap_pass (extract_comments (junk_pass (nuke_pass soup))))"

text \<open>
  \<open>sanitize_html\<close>. The parser (\<open>BeautifulSoup(raw_html, "html.parser")\<close>) and the
  serializer (\<open>str(soup)\<close>) belong to the library, not to the program: they are the
  parameters \<open>parse\<close> and \<open>decode\<close>. An exception of the library is the value \<open>Inl\<close>.
\<close>

datatype error = LibraryError

definition sanitize_html ::
  "(string \<Rightarrow> error + soup) \<Rightarrow> (soup \<Rightarrow> string) \<Rightarrow> string \<Rightarrow> error + string" where
  "sanitize_html parse decode raw_html =
     (if raw_html = [] then Inr []
      else case parse raw_html of
             Inl e \<Rightarrow> Inl e
           | Inr soup \<Rightarrow>
               (let result = strip (decode (sanitize_soup soup))
                in Inr (if length result > 50 then result else [])))"

section \<open>The content selector: \<open>get_display_html\<close>\<close>

record post =
  body_html :: "string option"
  body_text :: "string option"
  era :: "string option"

text \<open>\<open>post.get(key) or default\<close>.\<close>

definition get_or :: "string option \<Rightarrow> string \<Rightarrow> string" where
  "get_or v d = (case v of None \<Rightarrow> d | Some s \<Rightarrow> if s = [] then d else s)"

text \<open>
  \<open>s.split(sep)\<close> for the separator \<open>c # cs\<close>; \<open>cur\<close> is the piece being read.
  The blank-line separator is \<open>c = newline\<close>, \<open>cs = [newline]\<close>.
\<close>

fun split_sep :: "char \<Rightarrow> string \<Rightarrow> string \<Rightarrow> string \<Rightarrow> string list" where
  "split_sep c cs cur [] = [cur]"
| "split_sep c cs cur (x # xs) =
     (if x = c \<and> take (length cs) xs = cs
      then cur # split_sep c cs [] (drop (length cs) xs)
      else split_sep c cs (cur @ [x]) xs)"

text \<open>\<open>html.escape(s)\<close>, with \<open>quote=True\<close>.\<close>

definition escape_char :: "char \<Rightarrow> string" where
  "escape_char c =
     (if c = CHR ''&'' then ''&amp;''
      else if c = CHR ''<'' then ''&lt;''
      else if c = CHR ''>'' then ''&gt;''
      else if c = CHR 0x22 then ''&quot;''
      else if c = CHR 0x27 then ''&#x27;''
      else [c])"

definition escape :: "string \<Rightarrow> string" where
  "escape s = concat (map escape_char s)"

definition paragraphs_of :: "string \<Rightarrow> string list" where
  "paragraphs_of text =
     (let paragraphs = split_sep newline [newline] [] text
      in if length paragraphs \<le> 1 then split_sep newline [] [] text else paragraphs)"

definition render_paragraphs :: "string list \<Rightarrow> string" where
  "render_paragraphs paragraphs =
     concat (map (\<lambda>p. ''<p>'' @ escape (strip p) @ ''</p>'')
                 (filter (\<lambda>p. strip p \<noteq> []) paragraphs))"

text \<open>The fallback of \<open>get_display_html\<close>: \<open>body_text\<close> to paragraphs.\<close>

definition text_fallback :: "post \<Rightarrow> string" where
  "text_fallback post =
     render_paragraphs
       (paragraphs_of (clean_body_text (get_or (body_text post) ''No content available.'')))"

definition get_display_html ::
  "(string \<Rightarrow> error + soup) \<Rightarrow> (soup \<Rightarrow> string) \<Rightarrow> post \<Rightarrow> string" where
  "get_display_html parse decode post =
     (let html = get_or (body_html post) [];
          e = get_or (era post) []
      in if e = ''nextjs_v2'' \<and> html \<noteq> [] then html
         else if html \<noteq> []
         then (case sanitize_html parse decode html of
                 Inr cleaned \<Rightarrow> if cleaned \<noteq> [] then cleaned else text_fallback post
               | Inl exn \<Rightarrow> text_fallback post)
         else text_fallback post)"

section \<open>Example inputs\<close>

definition example_truncation :: string where
  "example_truncation =
     ''Great game today.'' @ [newline, newline] @ ''Share Tweet React (12)'' @ [newline] @
     ''user1: nice post''"

definition example_ad_banner :: string where
  "example_ad_banner = ''<div class='' @ [CHR 0x27] @ ''ad-banner'' @ [CHR 0x27] @ ''></div>''"

text \<open>A parser and a serializer for examples: the markup is one text node.\<close>

definition parse_text :: "string \<Rightarrow> error + soup" where
  "parse_text raw = Inr [NavigableString raw]"

fun decode_text :: "soup \<Rightarrow> string" where
  "decode_text [] = []"
| "decode_text (NavigableString s # rest) = s @ decode_text rest"
| "decode_text (n # rest) = decode_text rest"

definition example_two_markers :: string where
  "example_two_markers = ''A Leave a Comment B Top 5 Comments''"

text \<open>
  The paragraph rendering as the specification words it (each remaining segment is escaped
  and wrapped), to be compared with \<open>render_paragraphs\<close>.
\<close>

definition wrap_untrimmed :: "string \<Rightarrow> string" where
  "wrap_untrimmed p = ''<p>'' @ escape p @ ''</p>''"

definition not_blank :: "string \<Rightarrow> bool" where
  "not_blank p = (strip p \<noteq> [])"

definition render_paragraphs_untrimmed :: "string list \<Rightarrow> string" where
  "render_paragraphs_untrimmed paragraphs = concat (map wrap_untrimmed (filter not_blank paragraphs))"

definition example_indented :: string where
  "example_indented = ''a'' @ [newline, newline] @ '' b''"

definition post_boilerplate_only :: post where
  "post_boilerplate_only = \<lparr>body_html = None, body_text = Some ''Leave a Comment'', era = None\<rparr>"

definition post_blank :: post where
  "post_blank = \<lparr>body_html = None, body_text = Some '' '', era = None\<rparr>"

text \<open>The identities of the tags of a tree, in document order.\<close>

abbreviation ids_node :: "node \<Rightarrow> nat list" where
  "ids_node \<equiv> find_all_node (\<lambda>name. True)"

abbreviation ids :: "soup \<Rightarrow> nat list" where
  "ids \<equiv> find_all (\<lambda>name. True)"

text \<open>
  The properties of a sanitized tree: every tag is in \<open>ALLOWED_TAGS\<close>, every attribute
  of a tag is in the entry of \<open>ALLOWED_ATTRS\<close> for its name, and there is no comment.
\<close>

definition attr_allowed :: "string \<Rightarrow> string \<times> attr_value \<Rightarrow> bool" where
  "attr_allowed name kv = (fst kv \<in> set (allowed_attrs name))"

fun tags_allowed :: "node \<Rightarrow> bool" where
  "tags_allowed (Tag i name attrs contents) =
     (name \<in> set ALLOWED_TAGS \<and> list_all tags_allowed contents)"
| "tags_allowed (NavigableString s) = True"
| "tags_allowed (Comment s) = True"
| "tags_allowed (Other s) = True"

fun attrs_allowed :: "node \<Rightarrow> bool" where
  "attrs_allowed (Tag i name attrs contents) =
     (list_all (attr_allowed name) attrs \<and> list_all attrs_allowed contents)"
| "attrs_allowed (NavigableString s) = True"
| "attrs_allowed (Comment s) = True"
| "attrs_allowed (Other s) = True"

fun comment_free :: "node \<Rightarrow> bool" where
  "comment_free (Tag i name attrs contents) = list_all comment_free contents"
| "comment_free (NavigableString s) = True"
| "comment_free (Comment s) = False"
| "comment_free (Other s) = True"

definition sanitized :: "soup \<Rightarrow> bool" where
  "sanitized soup =
     (list_all tags_allowed soup \<and> list_all attrs_allowed soup \<and> list_all comment_free soup)"

text \<open>
  The fourth pass as the specification words it: every element that is not allowed is
  replaced by its children, in place, at every depth.
\<close>

fun unwrap_all_node :: "node \<Rightarrow> node list" where
  "unwrap_all_node (Tag i name attrs contents) =
     (if name \<in> set ALLOWED_TAGS
      then [Tag i name attrs (concat (map unwrap_all_node contents))]
      else concat (map unwrap_all_node contents))"
| "unwrap_all_node (NavigableString s) = [NavigableString s]"
| "unwrap_all_node (Comment s) = [Comment s]"
| "unwrap_all_node (Other s) = [Other s]"

definition unwrap_all :: "soup \<Rightarrow> soup" where
  "unwrap_all soup = concat (map unwrap_all_node soup)"

text \<open>
  The state of the fourth and of the fifth loop after the tags of a set \<open>S\<close> had their
  turn.
\<close>

fun unwrap_in_node :: "nat set \<Rightarrow> node \<Rightarrow> node list" where
  "unwrap_in_node S (Tag i name attrs contents) =
     (if i \<in> S \<and> name \<notin> set ALLOWED_TAGS
      then concat (map (unwrap_in_node S) contents)
      else [Tag i name attrs (concat (map (unwrap_in_node S) contents))])"
| "unwrap_in_node S (NavigableString s) = [NavigableString s]"
| "unwrap_in_node S (Comment s) = [Comment s]"
| "unwrap_in_node S (Other s) = [Other s]"

definition unwrap_in :: "nat set \<Rightarrow> soup \<Rightarrow> soup" where
  "unwrap_in S soup = concat (map (unwrap_in_node S) soup)"

fun strip_in_node :: "nat set \<Rightarrow> node \<Rightarrow> node" where
  "strip_in_node S (Tag i name attrs contents) =
     Tag i name
       (if i \<in> S then filter (\<lambda>(attr, v). attr \<in> set (allowed_attrs name)) attrs else attrs)
       (map (strip_in_node S) contents)"
| "strip_in_node S (NavigableString s) = NavigableString s"
| "strip_in_node S (Comment s) = Comment s"
| "strip_in_node S (Other s) = Other s"

definition strip_in :: "nat set \<Rightarrow> soup \<Rightarrow> soup" where
  "strip_in S soup = map (strip_in_node S) soup"

text \<open>An example tree: nested tags that are not allowed, a comment, junk, attributes.\<close>

definition example_soup :: soup where
  "example_soup =
     [Tag 0 ''div'' [(''class'', Vals [''x''])]
        [Tag 1 ''font'' []
           [Tag 2 ''center'' []
              [NavigableString ''hi'', Comment ''c'',
               Tag 3 ''a'' [(''href'', Str ''u''), (''onclick'', Str ''x'')] []]],
         Tag 4 ''nav'' [] [Tag 5 ''header'' [] []],
         Tag 6 ''p'' [(''id'', Str ''SideBar'')] [Tag 7 ''b'' [] []]]]"

text \<open>
  A model of the serializer of the library (\<open>str(soup)\<close>, formatter \<open>minimal\<close>), for
  the examples below. Text is written with \<open>&\<close>, \<open><\<close> and \<open>>\<close> escaped, except
  inside \<open>script\<close> and \<open>style\<close>; a tag without contents whose name is a void element is
  written as \<open><name/>\<close>; a comment is written between its delimiters; an \<open>Other\<close>
  string holds the markup of its kind, delimiters included, and is written as it stands.
\<close>

definition escape_minimal :: "string \<Rightarrow> string" where
  "escape_minimal s =
     concat (map (\<lambda>c. if c = CHR ''&'' then ''&amp;''
                      else if c = CHR ''<'' then ''&lt;''
                      else if c = CHR ''>'' then ''&gt;''
                      else [c]) s)"

definition quoted_attribute_value :: "string \<Rightarrow> string" where
  "quoted_attribute_value v =
     (if CHR 0x22 \<in> set v
      then (if CHR 0x27 \<in> set v
            then [CHR 0x22] @ concat (map (\<lambda>c. if c = CHR 0x22 then ''&quot;'' else [c]) v) @
                 [CHR 0x22]
            else [CHR 0x27] @ v @ [CHR 0x27])
      else [CHR 0x22] @ v @ [CHR 0x22])"

definition decode_attr :: "string \<times> attr_value \<Rightarrow> string" where
  "decode_attr kv =
     '' '' @ fst kv @ ''='' @
     quoted_attribute_value
       (escape_minimal (case snd kv of Str s \<Rightarrow> s | Vals vs \<Rightarrow> join_space vs))"

definition empty_element_tags :: "string list" where
  "empty_element_tags =
   [''area'', ''base'', ''br'', ''col'', ''embed'', ''hr'', ''img'', ''input'', ''keygen'',
    ''link'', ''menuitem'', ''meta'', ''param'', ''source'', ''track'', ''wbr'',
    ''basefont'', ''bgsound'', ''command'', ''frame'', ''image'', ''isindex'', ''nextid'',
    ''spacer'']"

fun decode_node :: "bool \<Rightarrow> node \<Rightarrow> string" where
  "decode_node raw (Tag i name attrs contents) =
     (if contents = [] \<and> name \<in> set empty_element_tags
      then ''<'' @ name @ concat (map decode_attr attrs) @ ''/>''
      else ''<'' @ name @ concat (map decode_attr attrs) @ ''>'' @
           concat (map (decode_node (name = ''script'' \<or> name = ''style'')) contents) @
           ''</'' @ name @ ''>'')"
| "decode_node raw (NavigableString s) = (if raw then s else escape_minimal s)"
| "decode_node raw (Comment s) = ''<!--'' @ s @ ''-->''"
| "decode_node raw (Other s) = s"

definition decode_markup :: "soup \<Rightarrow> string" where
  "decode_markup soup = concat (map (decode_node False) soup)"

text \<open>
  Markup in which a tag that is not allowed, holding a blank, follows a blank: the markup,
  what \<open>sanitize_html\<close> makes of it, and what it makes of that.
\<close>

definition example_sentence :: string where
  "example_sentence = ''The Red Sox won again last night at Fenway Park.''"

definition example_spaced :: string where
  "example_spaced = ''<p>'' @ example_sentence @ ''</p> <font> </font><p>B</p>''"

definition example_spaced_once :: string where
  "example_spaced_once = ''<p>'' @ example_sentence @ ''</p>  <p>B</p>''"

definition example_spaced_twice :: string where
  "example_spaced_twice = ''<p>'' @ example_sentence @ ''</p> <p>B</p>''"

text \<open>Markup with a CDATA section.\<close>

definition example_cdata :: string where
  "example_cdata =
     ''<![CDATA[<script>alert(1)</script>]]><p>'' @ example_sentence @ ''</p>''"

text \<open>
  The trees that the parser of the library (\<open>html.parser\<close>) builds for the markup of
  these examples; the table has no other entry. The parser replaces a string of blanks
  between two tags by one blank, and reads a CDATA section as one string.
\<close>

definition parse_examples :: "string \<Rightarrow> error + soup" where
  "parse_examples raw =
     (if raw = example_spaced
      then Inr [Tag 0 ''p'' [] [NavigableString example_sentence],
                NavigableString '' '',
                Tag 1 ''font'' [] [NavigableString '' ''],
                Tag 2 ''p'' [] [NavigableString ''B'']]
      else if raw = example_spaced_once \<or> raw = example_spaced_twice
      then Inr [Tag 0 ''p'' [] [NavigableString example_sentence],
                NavigableString '' '',
                Tag 1 ''p'' [] [NavigableString ''B'']]
      else if raw = example_cdata
      then Inr [Other ''<![CDATA[<script>alert(1)</script>]]>'',
                Tag 0 ''p'' [] [NavigableString example_sentence]]
      else Inl LibraryError)"

section \<open>Facts about the matcher\<close>

lemma mt_le: "mt p s = Some n \<Longrightarrow> n \<le> length s"
proof (induction p s arbitrary: n rule: mt.induct)
  case (1 s)
  then show ?case by simp
next
  case (2 c p s)
  then show ?case by (cases s) (auto split: if_splits)
next
  case (3 c p s)
  then show ?case by (cases s) (fastforce split: if_splits option.splits)+
next
  case (4 c p s)
  then show ?case by (cases s) (fastforce split: if_splits option.splits)+
next
  case (5 c p s)
  then show ?case by (cases s) (auto split: if_splits)
next
  case (6 c p s)
  then show ?case by (cases s) (fastforce split: if_splits option.splits)+
next
  case (7 p s)
  then show ?case by (auto split: if_splits)
qed

lemma re_search_start:
  "re_search p t = Some (i, n) \<Longrightarrow>
   i \<le> length t \<and> mt p (drop i t) = Some n \<and> (\<forall>j<i. mt p (drop j t) = None)"
proof (induction t arbitrary: i n)
  case Nil
  then show ?case by auto
next
  case (Cons x xs)
  show ?case
  proof (cases "mt p (x # xs)")
    case (Some m)
    with Cons.prems show ?thesis by auto
  next
    case None
    with Cons.prems obtain i' where i': "i = Suc i'" "re_search p xs = Some (i', n)"
      by (auto split: option.splits)
    from Cons.IH[OF i'(2)] have IH: "i' \<le> length xs" "mt p (drop i' xs) = Some n"
      "\<forall>j<i'. mt p (drop j xs) = None" by auto
    have "\<forall>j<i. mt p (drop j (x # xs)) = None"
    proof (intro allI impI)
      fix j assume "j < i"
      then show "mt p (drop j (x # xs)) = None"
        using None IH(3) i'(1) by (cases j) auto
    qed
    with IH i'(1) show ?thesis by simp
  qed
qed

lemma cut_loop_first:
  "\<forall>q\<in>set qs. re_search q t = None \<Longrightarrow> re_search p t = Some (i, n) \<Longrightarrow>
   cut_loop (qs @ p # rs) t = rstrip (take i t)"
  by (induction qs) auto

lemma cut_loop_none:
  "\<forall>q\<in>set ps. re_search q t = None \<Longrightarrow> cut_loop ps t = t"
  by (induction ps) auto

section \<open>Priority-order truncation\<close>

text \<open>
  Claim C2. \<open>clean_body_text\<close> goes through \<open>cut_patterns\<close> in the order of the list.
  If \<open>p\<close> is the first pattern of the list that matches anywhere in the text \<open>t\<close> (no
  pattern before it in the list matches, whatever matches later in the list or earlier in
  the text), the text is cut at the start \<open>i\<close> of the leftmost match of \<open>p\<close> and
  its trailing white space is trimmed; the patterns after \<open>p\<close> are not consulted, and the
  remaining steps of \<open>clean_body_text\<close> work on that prefix.
\<close>

theorem cut_priority:
  assumes "cut_patterns = qs @ p # rs"
    and "\<forall>q\<in>set qs. re_search q t = None"
    and "re_search p t = Some (i, n)"
    and "t \<noteq> []"
  shows "cut_loop cut_patterns t = rstrip (take i t)
       \<and> mt p (drop i t) = Some n \<and> (\<forall>j<i. mt p (drop j t) = None)
       \<and> clean_body_text t = strip (strip_nav (strip_byline (rstrip (take i t))))"
  using assms cut_loop_first[of qs t p i n rs] re_search_start[of p t i n]
  by (simp add: clean_body_text_def)

text \<open>
  The example of the claim: the second pattern of the list cuts the text at 19. In
  \<open>example_two_markers\<close> the eighth pattern matches at 2 and the third at 20; the third
  cuts.
\<close>

theorem cut_priority_witness:
  "clean_body_text example_truncation = ''Great game today.'' \<and>
   re_search (cut_patterns ! 7) example_two_markers = Some (2, 15) \<and>
   cut_loop cut_patterns example_two_markers = ''A Leave a Comment B''"
proof -
  have a: "cut_patterns = take 1 cut_patterns @ (cut_patterns ! 1) # drop 2 cut_patterns"
    by code_simp
  have b: "\<forall>q\<in>set (take 1 cut_patterns). re_search q example_truncation = None"
    by code_simp
  have c: "re_search (cut_patterns ! 1) example_truncation = Some (19, 22)"
    by code_simp
  have d: "example_truncation \<noteq> []"
    by code_simp
  have e: "strip (strip_nav (strip_byline (rstrip (take 19 example_truncation)))) =
           ''Great game today.''"
    by code_simp
  from cut_priority[OF a b c d]
  have "clean_body_text example_truncation =
        strip (strip_nav (strip_byline (rstrip (take 19 example_truncation))))"
    by blast
  with e have 1: "clean_body_text example_truncation = ''Great game today.''"
    by simp
  have a': "cut_patterns = take 2 cut_patterns @ (cut_patterns ! 2) # drop 3 cut_patterns"
    by code_simp
  have b': "\<forall>q\<in>set (take 2 cut_patterns). re_search q example_two_markers = None"
    by code_simp
  have c': "re_search (cut_patterns ! 2) example_two_markers = Some (20, 14)"
    by code_simp
  have d': "example_two_markers \<noteq> []"
    by code_simp
  have e': "rstrip (take 20 example_two_markers) = ''A Leave a Comment B''"
    by code_simp
  have f': "re_search (cut_patterns ! 7) example_two_markers = Some (2, 15)"
    by code_simp
  from cut_priority[OF a' b' c' d']
  have "cut_loop cut_patterns example_two_markers = rstrip (take 20 example_two_markers)"
    by blast
  with e' have 2: "cut_loop cut_patterns example_two_markers = ''A Leave a Comment B''"
    by simp
  from 1 f' 2 show ?thesis by blast
qed

section \<open>The tiers of the content selector\<close>

text \<open>
  Claim C6. A post of the era \<open>nextjs_v2\<close> with a non-empty \<open>body_html\<close> is displayed
  as that \<open>body_html\<close>, character for character, whatever the parser and the sanitizer
  would make of it.
\<close>

theorem preclean_passthrough:
  assumes "era post = Some ''nextjs_v2''"
    and "body_html post = Some html"
    and "html \<noteq> []"
  shows "get_display_html parse decode post = html"
  using assms by (simp add: get_display_html_def get_or_def)

theorem preclean_passthrough_witness:
  "get_display_html (\<lambda>raw. Inl LibraryError) (\<lambda>soup. [])
     \<lparr>body_html = Some ''<p>Hello</p>'', body_text = None, era = Some ''nextjs_v2''\<rparr>
   = ''<p>Hello</p>''"
  by (rule preclean_passthrough) simp_all

text \<open>
  Claim C7. For a post that is not of the era \<open>nextjs_v2\<close>, when the sanitizer gives
  nothing for its \<open>body_html\<close> (the empty string, or an exception of the library, which
  \<open>get_display_html\<close> catches), the result is the paragraph rendering of \<open>body_text\<close>.
\<close>

theorem fallback_degradation:
  assumes "get_or (era post) [] \<noteq> ''nextjs_v2''"
    and "\<forall>cleaned. sanitize_html parse decode (get_or (body_html post) []) = Inr cleaned
           \<longrightarrow> cleaned = []"
  shows "get_display_html parse decode post = text_fallback post"
proof (cases "sanitize_html parse decode (get_or (body_html post) [])")
  case (Inl e)
  then show ?thesis using assms(1) by (simp add: get_display_html_def Let_def)
next
  case (Inr c)
  with assms(2) have "c = []" by simp
  with Inr show ?thesis using assms(1) by (simp add: get_display_html_def Let_def)
qed

text \<open>
  The example of the claim, with a parser that reads the markup as one \<open>div\<close> of class
  \<open>ad-banner\<close> and a serializer that writes the empty tree as the empty string.
\<close>

theorem fallback_degradation_witness:
  "get_display_html
     (\<lambda>raw. Inr [Tag 0 ''div'' [(''class'', Vals [''ad-banner''])] []])
     (\<lambda>soup. if soup = [] then [] else ''<div></div>'')
     \<lparr>body_html = Some example_ad_banner,
      body_text = Some ''Real article content here.'', era = None\<rparr>
   = ''<p>Real article content here.</p>''"
proof -
  let ?parse = "\<lambda>raw::string. (Inr [Tag 0 ''div'' [(''class'', Vals [''ad-banner''])] []] :: error + soup)"
  let ?decode = "\<lambda>soup::soup. if soup = [] then [] else ''<div></div>''"
  let ?post = "\<lparr>body_html = Some example_ad_banner,
      body_text = Some ''Real article content here.'', era = None\<rparr>"
  have a: "get_or (era ?post) [] \<noteq> ''nextjs_v2''"
    by (simp add: get_or_def)
  have s: "sanitize_soup [Tag 0 ''div'' [(''class'', Vals [''ad-banner''])] []] = []"
    by code_simp
  have b: "\<forall>cleaned. sanitize_html ?parse ?decode (get_or (body_html ?post) []) = Inr cleaned
           \<longrightarrow> cleaned = []"
    by (simp add: sanitize_html_def s strip_def lstrip_def rstrip_def)
  have c: "text_fallback ?post = ''<p>Real article content here.</p>''"
    by code_simp
  from fallback_degradation[of ?post ?parse ?decode, OF a b] c show ?thesis
    by simp
qed

section \<open>The noise threshold\<close>

text \<open>
  Claim C9. \<open>sanitize_html\<close> serializes the sanitized tree and trims it; a result of at
  most 50 characters is replaced by the empty string, a longer one is returned as it is.
  (The empty markup is answered with the empty string before any parsing.)
\<close>

theorem noise_threshold:
  "sanitize_html parse decode [] = Inr [] \<and>
   (raw \<noteq> [] \<longrightarrow> parse raw = Inr soup \<longrightarrow>
      sanitize_html parse decode raw =
        Inr (if length (strip (decode (sanitize_soup soup))) \<le> 50 then []
             else strip (decode (sanitize_soup soup))))"
  by (auto simp: sanitize_html_def Let_def)

theorem noise_threshold_witness:
  "sanitize_html parse_text decode_text (replicate 50 CHR ''a'') = Inr [] \<and>
   sanitize_html parse_text decode_text (replicate 51 CHR ''a'') = Inr (replicate 51 CHR ''a'')"
proof -
  have s: "sanitize_soup [NavigableString t] = [NavigableString t]" for t
    by (simp add: sanitize_soup_def nuke_pass_def junk_pass_def unwrap_pass_def attrs_pass_def
        find_all_def extract_comments_def)
  have st50: "strip (replicate 50 CHR ''a'') = replicate 50 CHR ''a''"
    by code_simp
  have st51: "strip (replicate 51 CHR ''a'') = replicate 51 CHR ''a''"
    by code_simp
  have a: "sanitize_html parse_text decode_text (replicate 50 CHR ''a'') = Inr []"
    using noise_threshold[of parse_text decode_text "replicate 50 CHR ''a''"
        "[NavigableString (replicate 50 CHR ''a'')]"]
    by (simp add: parse_text_def s st50)
  have b: "sanitize_html parse_text decode_text (replicate 51 CHR ''a'')
           = Inr (replicate 51 CHR ''a'')"
    using noise_threshold[of parse_text decode_text "replicate 51 CHR ''a''"
        "[NavigableString (replicate 51 CHR ''a'')]"]
    by (simp add: parse_text_def s st51)
  from a b show ?thesis by simp
qed

section \<open>Facts about trimming\<close>

lemma rstrip_prefix: "prefix (rstrip s) s"
proof -
  have "suffix (dropWhile is_space (rev s)) (rev s)"
    by (rule suffix_dropWhile)
  then obtain zs where "rev s = zs @ dropWhile is_space (rev s)"
    by (auto simp: suffix_def)
  then have "rev (rev s) = rev (zs @ dropWhile is_space (rev s))"
    by simp
  then have "s = rev (dropWhile is_space (rev s)) @ rev zs"
    by simp
  then show ?thesis
    unfolding rstrip_def prefix_def by blast
qed

lemma lstrip_suffix: "suffix (lstrip s) s"
  by (simp add: lstrip_def suffix_dropWhile)

lemma strip_sublist: "sublist (strip s) s"
proof -
  have "sublist (lstrip (rstrip s)) (rstrip s)"
    using lstrip_suffix by (rule suffix_imp_sublist)
  moreover have "sublist (rstrip s) s"
    using rstrip_prefix by (rule prefix_imp_sublist)
  ultimately show ?thesis
    unfolding strip_def by (rule sublist_order.order_trans)
qed

lemma rstrip_snoc_space: "is_space c \<Longrightarrow> rstrip (s @ [c]) = rstrip s"
  by (simp add: rstrip_def)

lemma rstrip_Nil: "rstrip [] = []"
  by (simp add: rstrip_def)

lemma rstrip_snoc_nonspace: "\<not> is_space c \<Longrightarrow> rstrip (s @ [c]) = s @ [c]"
  by (simp add: rstrip_def)

lemma rstrip_idem: "rstrip (rstrip s) = rstrip s"
proof (induction s rule: rev_induct)
  case Nil
  show ?case by (simp add: rstrip_Nil)
next
  case (snoc c s)
  show ?case
  proof (cases "is_space c")
    case True
    with snoc show ?thesis by (simp add: rstrip_snoc_space)
  next
    case False
    then show ?thesis by (simp add: rstrip_snoc_nonspace)
  qed
qed

lemma lstrip_idem: "lstrip (lstrip s) = lstrip s"
  by (induction s) (auto simp: lstrip_def)

lemma rstrip_lstrip: "rstrip (lstrip s) = lstrip (rstrip s)"
proof (induction s rule: rev_induct)
  case Nil
  show ?case by (simp add: rstrip_def lstrip_def)
next
  case (snoc c s)
  show ?case
  proof (cases "is_space c")
    case True
    have "lstrip (s @ [c]) = (if \<forall>x\<in>set s. is_space x then [] else lstrip s @ [c])"
      using True by (simp add: lstrip_def dropWhile_append)
    moreover have "(\<forall>x\<in>set s. is_space x) \<Longrightarrow> lstrip (rstrip s) = []"
      using set_mono_prefix[OF rstrip_prefix, of s] by (auto simp: lstrip_def)
    ultimately show ?thesis
      using True snoc by (auto simp: rstrip_snoc_space rstrip_Nil)
  next
    case False
    have "lstrip (s @ [c]) = lstrip s @ [c]"
      using False by (auto simp: lstrip_def dropWhile_append dropWhile_eq_Nil_conv)
    with False show ?thesis by (simp add: rstrip_snoc_nonspace)
  qed
qed

lemma strip_idem: "strip (strip s) = strip s"
proof -
  have "strip (strip s) = lstrip (rstrip (lstrip (rstrip s)))"
    by (simp add: strip_def)
  also have "\<dots> = lstrip (lstrip (rstrip (rstrip s)))"
    by (simp add: rstrip_lstrip)
  also have "\<dots> = strip s"
    by (simp add: lstrip_idem rstrip_idem strip_def)
  finally show ?thesis .
qed

lemma rstrip_strip: "rstrip (strip s) = strip s"
  by (simp add: strip_def rstrip_lstrip rstrip_idem)

lemma lstrip_strip: "lstrip (strip s) = strip s"
  by (simp add: strip_def lstrip_idem)

lemma rstrip_eq_Nil: "rstrip s = [] \<longleftrightarrow> (\<forall>c\<in>set s. is_space c)"
  by (auto simp: rstrip_def dropWhile_eq_Nil_conv)

lemma strip_eq_Nil: "strip s = [] \<longleftrightarrow> (\<forall>c\<in>set s. is_space c)"
proof
  assume "strip s = []"
  then have "rstrip (lstrip s) = []"
    by (simp add: strip_def rstrip_lstrip)
  then have a: "\<forall>c\<in>set (lstrip s). is_space c"
    by (simp add: rstrip_eq_Nil)
  show "\<forall>c\<in>set s. is_space c"
  proof (rule ccontr)
    assume "\<not> (\<forall>c\<in>set s. is_space c)"
    then have "lstrip s \<noteq> []"
      by (auto simp: lstrip_def dropWhile_eq_Nil_conv)
    then have "\<not> is_space (hd (lstrip s))"
      unfolding lstrip_def by (rule hd_dropWhile)
    moreover have "hd (lstrip s) \<in> set (lstrip s)"
      using \<open>lstrip s \<noteq> []\<close> by simp
    ultimately show False using a by blast
  qed
next
  assume "\<forall>c\<in>set s. is_space c"
  then have "rstrip s = []" by (simp add: rstrip_eq_Nil)
  then show "strip s = []" by (simp add: strip_def lstrip_def)
qed

section \<open>Content preservation of \<open>clean_body_text\<close>\<close>

lemma cut_loop_prefix: "prefix (cut_loop ps t) t"
proof (induction ps)
  case Nil
  show ?case by simp
next
  case (Cons p ps)
  show ?case
  proof (cases "re_search p t")
    case None
    with Cons show ?thesis by simp
  next
    case (Some m)
    obtain i n where m: "m = (i, n)" by (cases m)
    have "prefix (rstrip (take i t)) (take i t)"
      by (rule rstrip_prefix)
    also have "prefix (take i t) t"
      by (rule take_is_prefix)
    finally show ?thesis using Some m by simp
  qed
qed

text \<open>A match of a pattern that ends with \<open>$\<close> ends where \<open>$\<close> holds.\<close>

lemma mt_eos:
  "mt p s = Some n \<Longrightarrow> p \<noteq> [] \<Longrightarrow> last p = Eos \<Longrightarrow> drop n s = [] \<or> drop n s = [newline]"
proof (induction p s arbitrary: n rule: mt.induct)
  case (1 s)
  then show ?case by simp
next
  case (2 c p s)
  then show ?case
    by (cases s; cases "p = []") (force split: if_splits option.splits)+
next
  case (3 c p s)
  then show ?case
    by (cases s; cases "p = []") (force split: if_splits option.splits)+
next
  case (4 c p s)
  then show ?case
    by (cases s; cases "p = []") (force split: if_splits option.splits)+
next
  case (5 c p s)
  then show ?case
    by (cases s; cases "p = []") (force split: if_splits option.splits)+
next
  case (6 c p s)
  then show ?case
    by (cases s; cases "p = []") (force split: if_splits option.splits)+
next
  case (7 p s)
  then show ?case by (cases "p = []") (auto split: if_splits)
qed

lemma byline_eos: "byline \<noteq> [] \<and> last byline = Eos"
  by (simp add: byline_def sp_def sp0_def digits_def liti_def)

lemma re_sub_byline_newline: "re_sub byline [newline] = [newline]"
  by code_simp

text \<open>What \<open>re.sub\<close> leaves of the text: a prefix, and at most the newline that ended it.\<close>

lemma re_sub_byline:
  "\<exists>k w. re_sub byline s = take k s @ w \<and> (w = [] \<or> w = [newline])"
proof (induction s)
  case Nil
  show ?case by simp
next
  case (Cons x xs)
  from Cons obtain k w where IH: "re_sub byline xs = take k xs @ w" "w = [] \<or> w = [newline]"
    by blast
  have keep: "\<exists>k w. x # re_sub byline xs = take k (x # xs) @ w \<and> (w = [] \<or> w = [newline])"
  proof (intro exI conjI)
    show "x # re_sub byline xs = take (Suc k) (x # xs) @ w" using IH(1) by simp
    show "w = [] \<or> w = [newline]" by (rule IH(2))
  qed
  show ?case
  proof (cases "mt byline (x # xs)")
    case None
    with keep show ?thesis by simp
  next
    case (Some n)
    show ?thesis
    proof (cases n)
      case 0
      with Some keep show ?thesis by simp
    next
      case (Suc m)
      from mt_eos[OF Some] byline_eos have "drop n (x # xs) = [] \<or> drop n (x # xs) = [newline]"
        by blast
      with Suc have d: "drop m xs = [] \<or> drop m xs = [newline]" by simp
      have r: "re_sub byline (x # xs) = re_sub byline (drop m xs)"
        using Some Suc by simp
      from d show ?thesis
      proof
        assume "drop m xs = []"
        with r have "re_sub byline (x # xs) = re_sub byline []"
          by (simp only:)
        then have "re_sub byline (x # xs) = take 0 (x # xs) @ []"
          by (simp only: re_sub.simps take_0 append_Nil)
        then show ?thesis by blast
      next
        assume "drop m xs = [newline]"
        with r have "re_sub byline (x # xs) = re_sub byline [newline]"
          by (simp only:)
        then have "re_sub byline (x # xs) = take 0 (x # xs) @ [newline]"
          by (simp only: re_sub_byline_newline take_0 append_Nil)
        then show ?thesis by blast
      qed
    qed
  qed
qed

lemma newline_space: "is_space newline"
  by code_simp

lemma strip_byline_prefix: "prefix (strip_byline t) t"
proof -
  obtain k w where kw: "re_sub byline t = take k t @ w" "w = [] \<or> w = [newline]"
    using re_sub_byline by blast
  have "rstrip (re_sub byline t) = rstrip (take k t)"
    using kw newline_space by (auto simp: rstrip_snoc_space)
  moreover have "prefix (rstrip (take k t)) (take k t)" by (rule rstrip_prefix)
  moreover have "prefix (take k t) t" by (rule take_is_prefix)
  ultimately show ?thesis by (simp add: strip_byline_def)
qed

lemma strip_nav_suffix: "suffix (strip_nav t) t"
proof (cases "mt nav t")
  case None
  then show ?thesis by (simp add: strip_nav_def)
next
  case (Some e)
  have "suffix (lstrip (drop e t)) (drop e t)" by (rule lstrip_suffix)
  also have "suffix (drop e t) t" by (rule suffix_drop)
  finally show ?thesis using Some by (simp add: strip_nav_def)
qed

text \<open>
  Claim C10. The result of \<open>clean_body_text\<close> is a contiguous part of its input and so
  never longer: the truncation and the byline removal keep a prefix of the text they are
  given, the navigation removal keeps a suffix, the trimming keeps a contiguous part.
\<close>

theorem clean_body_text_substring:
  "prefix (cut_loop cut_patterns t) t \<and>
   prefix (strip_byline t) t \<and>
   suffix (strip_nav t) t \<and>
   sublist (strip t) t \<and>
   sublist (clean_body_text t) t \<and>
   length (clean_body_text t) \<le> length t"
proof -
  let ?a = "cut_loop cut_patterns t"
  let ?b = "strip_byline ?a"
  let ?c = "strip_nav ?b"
  have 1: "sublist ?a t" by (rule prefix_imp_sublist) (rule cut_loop_prefix)
  have 2: "sublist ?b ?a" by (rule prefix_imp_sublist) (rule strip_byline_prefix)
  have 3: "sublist ?c ?b" by (rule suffix_imp_sublist) (rule strip_nav_suffix)
  have 4: "sublist (strip ?c) ?c" by (rule strip_sublist)
  have "sublist (strip ?c) t"
    using 4 3 2 1 by (meson sublist_order.order_trans)
  then have s: "sublist (clean_body_text t) t"
    by (simp add: clean_body_text_def)
  then have "length (clean_body_text t) \<le> length t"
    by (rule sublist_length_le)
  with s show ?thesis
    using cut_loop_prefix strip_byline_prefix strip_nav_suffix strip_sublist by blast
qed

section \<open>Re-applying \<open>clean_body_text\<close>\<close>

lemma re_sub_no_match: "re_search p s = None \<Longrightarrow> re_sub p s = s"
  by (induction s) (auto split: option.splits)

lemma strip_clean_body_text: "strip (clean_body_text t) = clean_body_text t"
  by (simp add: clean_body_text_def strip_idem) (simp add: strip_def lstrip_def rstrip_def)

text \<open>
  Claim C5 as stated fails. In \<open>A Leave a Comment B Top 5 Comments\<close> the third pattern
  of the list cuts first and leaves \<open>A Leave a Comment B\<close>; applied again, the eighth
  pattern cuts that to \<open>A\<close>.
\<close>

theorem clean_body_text_not_idempotent:
  "clean_body_text (clean_body_text example_two_markers) \<noteq> clean_body_text example_two_markers"
  by code_simp

text \<open>
  Claim C5, amended. When the cleaned text no longer holds a match of a pattern of
  \<open>cut_patterns\<close>, of the byline pattern or, at its start, of the navigation pattern,
  cleaning it again changes nothing.
\<close>

theorem clean_body_text_idempotent_when_clean:
  assumes "\<forall>p\<in>set cut_patterns. re_search p (clean_body_text t) = None"
    and "re_search byline (clean_body_text t) = None"
    and "mt nav (clean_body_text t) = None"
  shows "clean_body_text (clean_body_text t) = clean_body_text t"
proof -
  let ?u = "clean_body_text t"
  have 1: "cut_loop cut_patterns ?u = ?u"
    using assms(1) by (rule cut_loop_none)
  have "rstrip ?u = ?u"
    using rstrip_strip[of ?u] by (simp add: strip_clean_body_text)
  then have 2: "strip_byline ?u = ?u"
    using assms(2) by (simp add: strip_byline_def re_sub_no_match)
  have 3: "strip_nav ?u = ?u"
    using assms(3) by (simp add: strip_nav_def)
  have "clean_body_text ?u = (if ?u = [] then ?u else strip ?u)"
    unfolding clean_body_text_def[of ?u] by (simp only: 1 2 3)
  then show ?thesis
    by (simp add: strip_clean_body_text)
qed

theorem clean_body_text_idempotent_when_clean_witness:
  "clean_body_text (clean_body_text example_truncation) = clean_body_text example_truncation"
proof -
  have c: "clean_body_text example_truncation = ''Great game today.''"
    by code_simp
  have 1: "\<forall>p\<in>set cut_patterns. re_search p (clean_body_text example_truncation) = None"
    unfolding c by code_simp
  have 2: "re_search byline (clean_body_text example_truncation) = None"
    unfolding c by code_simp
  have 3: "mt nav (clean_body_text example_truncation) = None"
    unfolding c by code_simp
  show ?thesis
    by (rule clean_body_text_idempotent_when_clean[OF 1 2 3])
qed

section \<open>The text tier\<close>

lemma split_sep_no_sep: "c \<notin> set a \<Longrightarrow> split_sep c cs cur a = [cur @ a]"
  by (induction a arbitrary: cur) auto

lemma split_sep_at_sep:
  "c \<notin> set a \<Longrightarrow> split_sep c cs cur (a @ c # cs @ rest) = (cur @ a) # split_sep c cs [] rest"
  by (induction a arbitrary: cur) auto

lemma split_sep_single_newline:
  "c \<notin> set a \<Longrightarrow> c \<notin> set b \<Longrightarrow> split_sep c [c] cur (a @ c # b) = [cur @ a @ c # b]"
proof (induction a arbitrary: cur)
  case Nil
  have "take (Suc 0) b \<noteq> [c]"
    using Nil(2) by (cases b) auto
  then show ?case
    using Nil(2) split_sep_no_sep[of c b "[c]" "cur @ [c]"] by simp
next
  case (Cons x a)
  then show ?case by auto
qed

lemma render_paragraphs_append:
  "render_paragraphs (ps @ qs) = render_paragraphs ps @ render_paragraphs qs"
  by (simp add: render_paragraphs_def)

lemma no_content_default:
  assumes "body_html post = None \<or> body_html post = Some []"
    and "body_text post = None \<or> body_text post = Some []"
  shows "get_display_html parse decode post = ''<p>No content available.</p>''"
proof -
  have "text_fallback post =
        render_paragraphs (paragraphs_of (clean_body_text ''No content available.''))"
    using assms(2) by (auto simp: text_fallback_def get_or_def)
  also have "\<dots> = ''<p>No content available.</p>''"
    by code_simp
  finally show ?thesis
    using assms(1) by (auto simp: get_display_html_def get_or_def)
qed

text \<open>
  Claim C1 fails on the code. A \<open>body_text\<close> that is boilerplate from its first character
  (or is only white space) is cleaned to the empty string, no paragraph is produced, and
  \<open>get_display_html\<close> returns the empty string; the default text is used only when
  \<open>body_text\<close> is absent or empty before cleaning.
\<close>

theorem get_display_html_empty_output:
  "get_display_html parse decode post_boilerplate_only = [] \<and>
   get_display_html parse decode post_blank = []"
proof -
  have 1: "text_fallback post_boilerplate_only = []"
    by code_simp
  have 2: "text_fallback post_blank = []"
    by code_simp
  show ?thesis
    using 1 2
    by (simp add: get_display_html_def get_or_def post_boilerplate_only_def post_blank_def)
qed

text \<open>
  Claim C8 as stated fails: a segment is not escaped as it stands, it is trimmed first.
  In \<open>example_indented\<close> the second segment is \<open>b\<close> behind a blank; the program renders
  it without the blank.
\<close>

theorem segments_not_rendered_verbatim:
  "render_paragraphs (paragraphs_of (clean_body_text example_indented))
   \<noteq> render_paragraphs_untrimmed (paragraphs_of (clean_body_text example_indented))"
  by code_simp

text \<open>
  Claim C8, amended. The fallback cleans \<open>body_text\<close>, splits it at blank lines and, if
  that gives at most one segment, at single newlines instead. Segments of white space only
  are dropped; every other segment is trimmed, escaped and wrapped in a \<open>p\<close> element; the
  paragraphs follow one another in the order of the segments with nothing between them.
  Two paragraphs separated by a blank line give two \<open>p\<close> elements in their order; two
  lines separated by one newline do so as well.
\<close>

theorem paragraph_rendering:
  "text_fallback post =
     render_paragraphs
       (paragraphs_of (clean_body_text (get_or (body_text post) ''No content available.'')))
   \<and> paragraphs_of t =
       (if length (split_sep newline [newline] [] t) \<le> 1 then split_sep newline [] [] t
        else split_sep newline [newline] [] t)
   \<and> render_paragraphs (ps @ qs) = render_paragraphs ps @ render_paragraphs qs
   \<and> render_paragraphs [] = []
   \<and> render_paragraphs [p] =
       (if strip p = [] then [] else ''<p>'' @ escape (strip p) @ ''</p>'')
   \<and> (newline \<notin> set a \<and> newline \<notin> set b \<longrightarrow>
        paragraphs_of (a @ [newline, newline] @ b) = [a, b] \<and>
        paragraphs_of (a @ [newline] @ b) = [a, b])"
proof -
  have two: "paragraphs_of (a @ [newline, newline] @ b) = [a, b]"
    if "newline \<notin> set a" "newline \<notin> set b"
  proof -
    have "split_sep newline [newline] [] (a @ newline # [newline] @ b) =
          ([] @ a) # split_sep newline [newline] [] b"
      using that(1) by (rule split_sep_at_sep)
    also have "split_sep newline [newline] [] b = [[] @ b]"
      using that(2) by (rule split_sep_no_sep)
    finally show ?thesis by (simp add: paragraphs_of_def)
  qed
  have one: "paragraphs_of (a @ [newline] @ b) = [a, b]"
    if "newline \<notin> set a" "newline \<notin> set b"
  proof -
    have "split_sep newline [newline] [] (a @ newline # b) = [[] @ a @ newline # b]"
      using that by (rule split_sep_single_newline)
    moreover have "split_sep newline [] [] (a @ newline # [] @ b) =
          ([] @ a) # split_sep newline [] [] b"
      using that(1) by (rule split_sep_at_sep)
    moreover have "split_sep newline [] [] b = [[] @ b]"
      using that(2) by (rule split_sep_no_sep)
    ultimately show ?thesis by (simp add: paragraphs_of_def)
  qed
  show ?thesis
    using two one
    by (simp add: text_fallback_def paragraphs_of_def render_paragraphs_append Let_def)
       (simp add: render_paragraphs_def)
qed

theorem paragraph_rendering_witness:
  "render_paragraphs (paragraphs_of example_indented) = ''<p>a</p><p>b</p>''"
proof -
  have n: "newline \<notin> set ''a'' \<and> newline \<notin> set '' b''"
    by code_simp
  have "paragraphs_of (''a'' @ [newline, newline] @ '' b'') = [''a'', '' b'']"
    using paragraph_rendering[of _ _ _ _ _ "''a''" "'' b''"] n by blast
  then have "render_paragraphs (paragraphs_of example_indented) =
             render_paragraphs [''a'', '' b'']"
    by (simp add: example_indented_def)
  also have "\<dots> = ''<p>a</p><p>b</p>''"
    by code_simp
  finally show ?thesis .
qed

section \<open>Facts about the tree operations\<close>

lemma fold_unchanged: "(\<And>i. i \<in> set is \<Longrightarrow> g i f = f) \<Longrightarrow> fold g is f = f"
  by (induction "is") auto

lemma subseq_distinct: "subseq xs ys \<Longrightarrow> distinct ys \<Longrightarrow> distinct xs"
proof (induction rule: list_emb.induct)
  case (list_emb_Nil ys)
  show ?case by simp
next
  case (list_emb_Cons xs ys y)
  then show ?case by simp
next
  case (list_emb_Cons2 x y xs ys)
  then have "x \<notin> set ys" by simp
  moreover have "set xs \<subseteq> set ys"
    using list_emb_Cons2(2) by (induction rule: list_emb.induct) auto
  ultimately show ?case using list_emb_Cons2 by auto
qed

lemma subseq_concat_map:
  "(\<And>x. x \<in> set xs \<Longrightarrow> subseq (g x) (h x)) \<Longrightarrow> subseq (concat (map g xs)) (concat (map h xs))"
  by (induction xs) (auto intro: list_emb_append_mono)

lemma ids_Cons: "ids (x # xs) = ids_node x @ ids xs"
  by (simp add: find_all_def)

lemma ids_append: "ids (xs @ ys) = ids xs @ ids ys"
  by (simp add: find_all_def)

lemma ids_node_Tag: "ids_node (Tag i name attrs contents) = i # ids contents"
  by (simp add: find_all_def)

lemma get_tag_Cons:
  "get_tag i (x # xs) = (case get_tag_node i x of Some t \<Rightarrow> Some t | None \<Rightarrow> get_tag i xs)"
  by (cases "get_tag_node i x") (simp_all add: get_tag_def)

lemma get_tag_node_Tag:
  "get_tag_node i (Tag j name attrs contents) =
     (if j = i then Some (name, attrs) else get_tag i contents)"
  by (simp add: get_tag_def)

lemma first_some_None: "first_some xs = None \<longleftrightarrow> (\<forall>x\<in>set xs. x = None)"
  by (induction xs rule: first_some.induct) auto

lemma get_tag_node_None: "get_tag_node i x = None \<longleftrightarrow> i \<notin> set (ids_node x)"
  by (induction x) (auto simp: first_some_None)

lemma get_tag_None: "get_tag i xs = None \<longleftrightarrow> i \<notin> set (ids xs)"
  by (auto simp: get_tag_def find_all_def first_some_None get_tag_node_None)

subsection \<open>The unwrap loop\<close>

lemma unwrap_node_unchanged: "i \<notin> set (ids_node x) \<Longrightarrow> unwrap_node i x = [x]"
proof (induction x)
  case (Tag j name attrs contents)
  then have "\<And>c. c \<in> set contents \<Longrightarrow> unwrap_node i c = [c]"
    by (auto simp: find_all_def)
  then have "concat (map (unwrap_node i) contents) = contents"
    by (induction contents) auto
  with Tag.prems show ?case by auto
qed simp_all

lemma unwrap_unchanged: "i \<notin> set (ids f) \<Longrightarrow> unwrap i f = f"
  by (induction f) (auto simp: unwrap_def find_all_def unwrap_node_unchanged)

lemma unwrap_in_node_unchanged: "S \<inter> set (ids_node x) = {} \<Longrightarrow> unwrap_in_node S x = [x]"
proof (induction x)
  case (Tag j name attrs contents)
  then have "\<And>c. c \<in> set contents \<Longrightarrow> unwrap_in_node S c = [c]"
    by (auto simp: find_all_def)
  then have "concat (map (unwrap_in_node S) contents) = contents"
    by (induction contents) auto
  with Tag.prems show ?case by auto
qed simp_all

lemma unwrap_in_unchanged: "S \<inter> set (ids f) = {} \<Longrightarrow> unwrap_in S f = f"
proof (induction f)
  case Nil
  show ?case by (simp add: unwrap_in_def)
next
  case (Cons x xs)
  from Cons.prems have "S \<inter> set (ids_node x) = {}" "S \<inter> set (ids xs) = {}"
    by (auto simp: ids_Cons)
  with Cons.IH show ?case
    by (simp add: unwrap_in_def unwrap_in_node_unchanged)
qed

lemma unwrap_Cons: "unwrap i (x # xs) = unwrap_node i x @ unwrap i xs"
  by (simp add: unwrap_def)

lemma unwrap_in_Cons: "unwrap_in S (x # xs) = unwrap_in_node S x @ unwrap_in S xs"
  by (simp add: unwrap_in_def)

text \<open>One round of the loop, on a forest whose nodes satisfy the same statement.\<close>

lemma unwrap_step_forest:
  assumes nodes: "\<And>c. c \<in> set f \<Longrightarrow> distinct (ids_node c) \<Longrightarrow>
            unwrap_in_node {i} c =
              (case get_tag_node i c of None \<Rightarrow> [c]
               | Some (nm, a) \<Rightarrow> if nm \<notin> set ALLOWED_TAGS then unwrap_node i c else [c])"
    and dist: "distinct (ids f)"
  shows "unwrap_in {i} f = unwrap_step i f"
  using assms
proof (induction f)
  case Nil
  show ?case by (simp add: unwrap_in_def unwrap_step_def get_tag_def)
next
  case (Cons x xs)
  have dx: "distinct (ids_node x)" and dxs: "distinct (ids xs)"
    and disj: "set (ids_node x) \<inter> set (ids xs) = {}"
    using Cons.prems(2) by (auto simp: ids_Cons)
  have IH: "unwrap_in {i} xs = unwrap_step i xs"
    using Cons.IH Cons.prems(1) dxs by simp
  have nx: "unwrap_in_node {i} x =
              (case get_tag_node i x of None \<Rightarrow> [x]
               | Some (nm, a) \<Rightarrow> if nm \<notin> set ALLOWED_TAGS then unwrap_node i x else [x])"
    using Cons.prems(1)[of x] dx by simp
  show ?case
  proof (cases "get_tag_node i x")
    case None
    then have "i \<notin> set (ids_node x)" by (simp add: get_tag_node_None)
    then have u: "unwrap_node i x = [x]" by (rule unwrap_node_unchanged)
    show ?thesis
      using None nx IH u
      by (auto simp: unwrap_in_Cons unwrap_Cons unwrap_step_def get_tag_Cons split: option.splits)
  next
    case (Some t)
    then have "i \<in> set (ids_node x)"
      using get_tag_node_None[of i x] by auto
    with disj have nxs: "i \<notin> set (ids xs)" by auto
    then have "unwrap_in {i} xs = xs" "unwrap i xs = xs"
      by (simp_all add: unwrap_in_unchanged unwrap_unchanged)
    then show ?thesis
      using Some nx
      by (auto simp: unwrap_in_Cons unwrap_Cons unwrap_step_def get_tag_Cons
          split: option.splits prod.splits)
  qed
qed

lemma unwrap_step_node:
  "distinct (ids_node x) \<Longrightarrow>
   unwrap_in_node {i} x =
     (case get_tag_node i x of None \<Rightarrow> [x]
      | Some (nm, a) \<Rightarrow> if nm \<notin> set ALLOWED_TAGS then unwrap_node i x else [x])"
proof (induction x)
  case (Tag j name attrs contents)
  have dc: "distinct (ids contents)" and nj: "j \<notin> set (ids contents)"
    using Tag.prems by (simp_all add: find_all_def)
  have step: "unwrap_in {i} contents = unwrap_step i contents"
    using Tag.IH dc by (rule unwrap_step_forest)
  show ?case
  proof (cases "j = i")
    case True
    with nj have "unwrap_in {i} contents = contents"
      by (simp add: unwrap_in_unchanged)
    with True show ?thesis by (simp add: unwrap_in_def)
  next
    case False
    have "unwrap_in_node {i} (Tag j name attrs contents) =
          [Tag j name attrs (unwrap_step i contents)]"
      using False step by (simp add: unwrap_in_def)
    moreover have "(case get_tag i contents of None \<Rightarrow> [Tag j name attrs contents]
        | Some (nm, a) \<Rightarrow> if nm \<notin> set ALLOWED_TAGS then unwrap_node i (Tag j name attrs contents)
                          else [Tag j name attrs contents]) =
          [Tag j name attrs (unwrap_step i contents)]"
      using False by (auto simp: unwrap_step_def unwrap_def split: option.splits)
    ultimately show ?thesis using False by (simp add: get_tag_def)
  qed
qed simp_all

lemma unwrap_step_eq: "distinct (ids f) \<Longrightarrow> unwrap_step i f = unwrap_in {i} f"
  using unwrap_step_forest[of f i] unwrap_step_node by simp

lemma unwrap_in_append: "unwrap_in S (xs @ ys) = unwrap_in S xs @ unwrap_in S ys"
  by (simp add: unwrap_in_def)

lemma unwrap_in_concat_map:
  "unwrap_in S (concat (map g cs)) = concat (map (\<lambda>c. unwrap_in S (g c)) cs)"
  by (induction cs) (simp_all add: unwrap_in_append, simp add: unwrap_in_def)

lemma unwrap_in_insert_node:
  "unwrap_in S (unwrap_in_node {i} x) = unwrap_in_node (insert i S) x"
proof (induction x)
  case (Tag j name attrs contents)
  have "unwrap_in S (concat (map (unwrap_in_node {i}) contents)) =
        concat (map (unwrap_in_node (insert i S)) contents)"
    using Tag.IH by (simp add: unwrap_in_concat_map cong: map_cong)
  then show ?case
    by (auto simp: unwrap_in_def)
qed (simp_all add: unwrap_in_def)

lemma unwrap_in_insert: "unwrap_in S (unwrap_in {i} f) = unwrap_in (insert i S) f"
proof -
  have "unwrap_in S (unwrap_in {i} f) = concat (map (\<lambda>c. unwrap_in S (unwrap_in_node {i} c)) f)"
    unfolding unwrap_in_def[of "{i}"] by (rule unwrap_in_concat_map)
  then show ?thesis
    by (simp add: unwrap_in_insert_node) (simp add: unwrap_in_def)
qed

lemma ids_concat_map: "ids (concat (map g cs)) = concat (map (\<lambda>c. ids (g c)) cs)"
  by (induction cs) (simp_all add: ids_append, simp add: find_all_def)

lemma unwrap_in_node_subseq: "subseq (ids (unwrap_in_node S x)) (ids_node x)"
proof (induction x)
  case (Tag j name attrs contents)
  have "subseq (concat (map (\<lambda>c. ids (unwrap_in_node S c)) contents))
               (concat (map ids_node contents))"
    using Tag.IH by (rule subseq_concat_map)
  then have c: "subseq (ids (concat (map (unwrap_in_node S) contents))) (ids contents)"
    by (simp add: ids_concat_map) (simp add: find_all_def)
  show ?case
  proof (cases "j \<in> S \<and> name \<notin> set ALLOWED_TAGS")
    case True
    with c show ?thesis by (auto simp: find_all_def)
  next
    case False
    with c show ?thesis by (auto simp: find_all_def)
  qed
qed (simp_all add: find_all_def)

lemma unwrap_in_subseq: "subseq (ids (unwrap_in S f)) (ids f)"
proof -
  have "subseq (concat (map (\<lambda>c. ids (unwrap_in_node S c)) f)) (concat (map ids_node f))"
    by (rule subseq_concat_map) (rule unwrap_in_node_subseq)
  then show ?thesis
    by (simp add: unwrap_in_def ids_concat_map) (simp add: find_all_def)
qed

lemma unwrap_in_empty: "unwrap_in {} f = f"
  by (rule unwrap_in_unchanged) simp

lemma fold_unwrap_step:
  "distinct (ids f) \<Longrightarrow> fold unwrap_step is f = unwrap_in (set is) f"
proof (induction "is" arbitrary: f)
  case Nil
  show ?case by (simp add: unwrap_in_empty)
next
  case (Cons i "is")
  have s: "unwrap_step i f = unwrap_in {i} f"
    using Cons.prems by (rule unwrap_step_eq)
  have "distinct (ids (unwrap_in {i} f))"
    using unwrap_in_subseq Cons.prems by (rule subseq_distinct)
  then have "fold unwrap_step is (unwrap_in {i} f) = unwrap_in (set is) (unwrap_in {i} f)"
    by (rule Cons.IH)
  then show ?case
    by (simp add: s unwrap_in_insert)
qed

lemma unwrap_in_all_node: "set (ids_node x) \<subseteq> S \<Longrightarrow> unwrap_in_node S x = unwrap_all_node x"
proof (induction x)
  case (Tag j name attrs contents)
  then have "\<And>c. c \<in> set contents \<Longrightarrow> unwrap_in_node S c = unwrap_all_node c"
    by (auto simp: find_all_def)
  then have m: "map (unwrap_in_node S) contents = map unwrap_all_node contents"
    by simp
  show ?case using Tag.prems by (simp add: m)
qed simp_all

text \<open>The loop over the tags found does what the recursive replacement does.\<close>

lemma unwrap_pass_eq: "distinct (ids f) \<Longrightarrow> unwrap_pass f = unwrap_all f"
proof -
  assume "distinct (ids f)"
  then have "unwrap_pass f = unwrap_in (set (ids f)) f"
    unfolding unwrap_pass_def by (rule fold_unwrap_step)
  also have "\<dots> = unwrap_all f"
  proof -
    have "\<And>c. c \<in> set f \<Longrightarrow> unwrap_in_node (set (ids f)) c = unwrap_all_node c"
      by (rule unwrap_in_all_node) (auto simp: find_all_def)
    then show ?thesis by (simp add: unwrap_in_def unwrap_all_def cong: map_cong)
  qed
  finally show ?thesis .
qed

lemma unwrap_all_node_tags: "list_all tags_allowed (unwrap_all_node x)"
proof (induction x)
  case (Tag j name attrs contents)
  then have "list_all tags_allowed (concat (map unwrap_all_node contents))"
    by (induction contents) auto
  then show ?case by simp
qed simp_all

lemma unwrap_all_tags: "list_all tags_allowed (unwrap_all f)"
  by (induction f) (simp_all add: unwrap_all_def unwrap_all_node_tags)

lemma unwrap_all_node_comment_free:
  "comment_free x \<Longrightarrow> list_all comment_free (unwrap_all_node x)"
proof (induction x)
  case (Tag j name attrs contents)
  then have "list_all comment_free (concat (map unwrap_all_node contents))"
    by (induction contents) auto
  then show ?case by simp
qed simp_all

lemma unwrap_all_comment_free:
  "list_all comment_free f \<Longrightarrow> list_all comment_free (unwrap_all f)"
  by (induction f) (simp_all add: unwrap_all_def unwrap_all_node_comment_free)

subsection \<open>The attribute loop\<close>

lemma strip_attrs_node_eq: "strip_attrs_node i x = strip_in_node {i} x"
  by (induction x) simp_all

lemma strip_attrs_eq: "strip_attrs i f = strip_in {i} f"
  by (simp add: strip_attrs_def strip_in_def strip_attrs_node_eq)

lemma strip_in_insert_node: "strip_in_node S (strip_in_node {i} x) = strip_in_node (insert i S) x"
  by (induction x) auto

lemma strip_in_insert: "strip_in S (strip_in {i} f) = strip_in (insert i S) f"
  by (simp add: strip_in_def strip_in_insert_node)

lemma strip_in_empty_node: "strip_in_node {} x = x"
  by (induction x) (simp_all add: map_idI)

lemma fold_strip_attrs: "fold strip_attrs is f = strip_in (set is) f"
proof (induction "is" arbitrary: f)
  case Nil
  have "map (strip_in_node {}) f = f"
    by (rule map_idI) (rule strip_in_empty_node)
  then show ?case by (simp add: strip_in_def)
next
  case (Cons i "is")
  then show ?case by (simp add: strip_attrs_eq strip_in_insert)
qed

lemma strip_in_node_attrs: "set (ids_node x) \<subseteq> S \<Longrightarrow> attrs_allowed (strip_in_node S x)"
proof (induction x)
  case (Tag j name attrs contents)
  then have "\<And>c. c \<in> set contents \<Longrightarrow> attrs_allowed (strip_in_node S c)"
    by (auto simp: find_all_def)
  then have "list_all attrs_allowed (map (strip_in_node S) contents)"
    by (simp add: list_all_iff)
  with Tag.prems show ?case
    by (auto simp: list_all_iff attr_allowed_def)
qed simp_all

lemma strip_in_node_tags: "tags_allowed x \<Longrightarrow> tags_allowed (strip_in_node S x)"
  by (induction x) (auto simp: list_all_iff)

lemma strip_in_node_comment_free: "comment_free x \<Longrightarrow> comment_free (strip_in_node S x)"
  by (induction x) (auto simp: list_all_iff)

lemma attrs_pass_sanitized:
  assumes "list_all tags_allowed f" and "list_all comment_free f"
  shows "sanitized (attrs_pass f)"
proof -
  have e: "attrs_pass f = map (strip_in_node (set (ids f))) f"
    by (simp add: attrs_pass_def fold_strip_attrs strip_in_def)
  have "\<And>c. c \<in> set f \<Longrightarrow> attrs_allowed (strip_in_node (set (ids f)) c)"
    by (rule strip_in_node_attrs) (auto simp: find_all_def)
  then show ?thesis
    using assms
    by (simp add: e sanitized_def list_all_iff strip_in_node_tags strip_in_node_comment_free)
qed

subsection \<open>The loops that decompose, and the comments\<close>

lemma decompose_node_subseq: "subseq (ids (decompose_node i x)) (ids_node x)"
proof (induction x)
  case (Tag j name attrs contents)
  have "subseq (concat (map (\<lambda>c. ids (decompose_node i c)) contents))
               (concat (map ids_node contents))"
    using Tag.IH by (rule subseq_concat_map)
  then have "subseq (ids (concat (map (decompose_node i) contents))) (ids contents)"
    by (simp add: ids_concat_map, simp add: find_all_def)
  then show ?case by (auto simp: find_all_def)
qed (simp_all add: find_all_def)

lemma decompose_subseq: "subseq (ids (decompose i f)) (ids f)"
proof -
  have "subseq (concat (map (\<lambda>c. ids (decompose_node i c)) f)) (concat (map ids_node f))"
    by (rule subseq_concat_map) (rule decompose_node_subseq)
  then show ?thesis
    by (simp add: decompose_def ids_concat_map, simp add: find_all_def)
qed

lemma decompose_distinct: "distinct (ids f) \<Longrightarrow> distinct (ids (decompose i f))"
  using decompose_subseq by (rule subseq_distinct)

lemma junk_step_distinct: "distinct (ids f) \<Longrightarrow> distinct (ids (junk_step i f))"
  by (auto simp: junk_step_def decompose_distinct split: option.splits)

lemma nuke_pass_distinct: "distinct (ids f) \<Longrightarrow> distinct (ids (nuke_pass f))"
proof -
  have "distinct (ids f) \<Longrightarrow> distinct (ids (fold decompose is f))" for "is"
    by (induction "is" arbitrary: f) (simp_all add: decompose_distinct)
  then show "distinct (ids f) \<Longrightarrow> distinct (ids (nuke_pass f))"
    by (simp add: nuke_pass_def)
qed

lemma junk_pass_distinct: "distinct (ids f) \<Longrightarrow> distinct (ids (junk_pass f))"
proof -
  have "distinct (ids f) \<Longrightarrow> distinct (ids (fold junk_step is f))" for "is"
    by (induction "is" arbitrary: f) (simp_all add: junk_step_distinct)
  then show "distinct (ids f) \<Longrightarrow> distinct (ids (junk_pass f))"
    by (simp add: junk_pass_def)
qed

lemma extract_comments_node_ids: "ids (extract_comments_node x) = ids_node x"
proof (induction x)
  case (Tag j name attrs contents)
  then have "concat (map (\<lambda>c. ids (extract_comments_node c)) contents) =
             concat (map ids_node contents)"
    by (simp cong: map_cong)
  then have "ids (concat (map extract_comments_node contents)) = ids contents"
    by (simp add: ids_concat_map, simp add: find_all_def)
  then show ?case by (simp add: find_all_def)
qed (simp_all add: find_all_def)

lemma extract_comments_ids: "ids (extract_comments f) = ids f"
proof -
  have "concat (map (\<lambda>c. ids (extract_comments_node c)) f) = concat (map ids_node f)"
    by (simp add: extract_comments_node_ids)
  then show ?thesis
    by (simp add: extract_comments_def ids_concat_map, simp add: find_all_def)
qed

lemma extract_comments_node_free: "list_all comment_free (extract_comments_node x)"
proof (induction x)
  case (Tag j name attrs contents)
  then have "list_all comment_free (concat (map extract_comments_node contents))"
    by (induction contents) auto
  then show ?case by simp
qed simp_all

lemma extract_comments_free: "list_all comment_free (extract_comments f)"
  by (induction f) (simp_all add: extract_comments_def extract_comments_node_free)

subsection \<open>The five passes together\<close>

lemma sanitize_soup_sanitized:
  assumes "distinct (ids soup)"
  shows "sanitized (sanitize_soup soup)"
proof -
  let ?s3 = "extract_comments (junk_pass (nuke_pass soup))"
  have d: "distinct (ids ?s3)"
    using assms by (simp add: extract_comments_ids junk_pass_distinct nuke_pass_distinct)
  then have u: "unwrap_pass ?s3 = unwrap_all ?s3"
    by (rule unwrap_pass_eq)
  have "list_all comment_free ?s3"
    by (rule extract_comments_free)
  then have "list_all comment_free (unwrap_all ?s3)"
    by (rule unwrap_all_comment_free)
  moreover have "list_all tags_allowed (unwrap_all ?s3)"
    by (rule unwrap_all_tags)
  ultimately have "sanitized (attrs_pass (unwrap_all ?s3))"
    by (rule attrs_pass_sanitized[rotated])
  then show ?thesis
    by (simp add: sanitize_soup_def u)
qed

subsection \<open>A sanitized tree is left as it is\<close>

lemma allowed_not_nuked: "name \<in> set ALLOWED_TAGS \<Longrightarrow> name \<notin> set NUKED_TAGS"
proof -
  have "list_all (\<lambda>n. n \<notin> set NUKED_TAGS) ALLOWED_TAGS"
    by code_simp
  then show "name \<in> set ALLOWED_TAGS \<Longrightarrow> name \<notin> set NUKED_TAGS"
    by (simp add: list_all_iff)
qed

lemma allowed_attrs_no_class_id:
  "''class'' \<notin> set (allowed_attrs name) \<and> ''id'' \<notin> set (allowed_attrs name)"
proof (cases "map_of ALLOWED_ATTRS name")
  case None
  then show ?thesis by (simp add: allowed_attrs_def)
next
  case (Some as)
  have "list_all (\<lambda>e. ''class'' \<notin> set (snd e) \<and> ''id'' \<notin> set (snd e)) ALLOWED_ATTRS"
    by code_simp
  moreover have "(name, as) \<in> set ALLOWED_ATTRS"
    using Some by (rule map_of_SomeD)
  ultimately have "''class'' \<notin> set as \<and> ''id'' \<notin> set as"
    by (auto simp: list_all_iff)
  with Some show ?thesis by (simp add: allowed_attrs_def)
qed

lemma junk_search_empty: "\<not> junk_search []"
  by code_simp

lemma allowed_attrs_not_junk: "list_all (attr_allowed name) attrs \<Longrightarrow> \<not> is_junk attrs"
proof -
  assume a: "list_all (attr_allowed name) attrs"
  have "k \<notin> set (allowed_attrs name) \<Longrightarrow> map_of attrs k = None" for k
  proof (rule ccontr)
    assume k: "k \<notin> set (allowed_attrs name)" and "map_of attrs k \<noteq> None"
    then obtain v where "map_of attrs k = Some v" by auto
    then have "(k, v) \<in> set attrs" by (rule map_of_SomeD)
    with a have "k \<in> set (allowed_attrs name)"
      by (auto simp: list_all_iff attr_allowed_def)
    with k show False by simp
  qed
  then have "map_of attrs ''class'' = None" "map_of attrs ''id'' = None"
    using allowed_attrs_no_class_id by simp_all
  then show ?thesis
    by (simp add: is_junk_def classes_of_def id_of_def junk_search_empty)
qed

lemma first_some_Some: "first_some xs = Some y \<Longrightarrow> Some y \<in> set xs"
  by (induction xs rule: first_some.induct) auto

lemma get_tag_node_sanitized:
  "tags_allowed x \<Longrightarrow> attrs_allowed x \<Longrightarrow> get_tag_node i x = Some (name, attrs) \<Longrightarrow>
   name \<in> set ALLOWED_TAGS \<and> list_all (attr_allowed name) attrs"
proof (induction x)
  case (Tag j n a contents)
  show ?case
  proof (cases "j = i")
    case True
    with Tag.prems show ?thesis by simp
  next
    case False
    with Tag.prems(3) have "first_some (map (get_tag_node i) contents) = Some (name, attrs)"
      by simp
    then have "Some (name, attrs) \<in> set (map (get_tag_node i) contents)"
      by (rule first_some_Some)
    then obtain c where "c \<in> set contents" "get_tag_node i c = Some (name, attrs)"
      by auto
    with Tag.IH[of c] Tag.prems(1,2) show ?thesis
      by (simp add: list_all_iff)
  qed
qed simp_all

lemma get_tag_sanitized:
  assumes "sanitized f" and "get_tag i f = Some (name, attrs)"
  shows "name \<in> set ALLOWED_TAGS \<and> list_all (attr_allowed name) attrs"
proof -
  from assms(2) have "Some (name, attrs) \<in> set (map (get_tag_node i) f)"
    unfolding get_tag_def by (rule first_some_Some)
  then obtain c where "c \<in> set f" "get_tag_node i c = Some (name, attrs)"
    by auto
  with assms(1) get_tag_node_sanitized[of c i name attrs] show ?thesis
    by (simp add: sanitized_def list_all_iff)
qed

lemma nothing_to_nuke_node:
  "tags_allowed x \<Longrightarrow> find_all_node (\<lambda>name. name \<in> set NUKED_TAGS) x = []"
  by (induction x) (auto simp: list_all_iff allowed_not_nuked)

lemma nuke_pass_sanitized: "sanitized f \<Longrightarrow> nuke_pass f = f"
proof -
  assume "sanitized f"
  then have "\<And>c. c \<in> set f \<Longrightarrow> find_all_node (\<lambda>name. name \<in> set NUKED_TAGS) c = []"
    by (simp add: sanitized_def list_all_iff nothing_to_nuke_node)
  then have "find_all (\<lambda>name. name \<in> set NUKED_TAGS) f = []"
    by (simp add: find_all_def)
  then show ?thesis
    by (simp add: nuke_pass_def)
qed

lemma junk_pass_sanitized: "sanitized f \<Longrightarrow> junk_pass f = f"
proof -
  assume s: "sanitized f"
  have "junk_step i f = f" for i
    using get_tag_sanitized[OF s, of i] allowed_attrs_not_junk
    by (auto simp: junk_step_def split: option.splits)
  then show ?thesis
    unfolding junk_pass_def by (intro fold_unchanged)
qed

lemma extract_comments_node_unchanged: "comment_free x \<Longrightarrow> extract_comments_node x = [x]"
proof (induction x)
  case (Tag j name attrs contents)
  then have "\<And>c. c \<in> set contents \<Longrightarrow> extract_comments_node c = [c]"
    by (simp add: list_all_iff)
  then have "concat (map extract_comments_node contents) = contents"
    by (induction contents) auto
  then show ?case by simp
qed simp_all

lemma extract_comments_sanitized: "sanitized f \<Longrightarrow> extract_comments f = f"
proof -
  assume "sanitized f"
  then have "\<And>c. c \<in> set f \<Longrightarrow> extract_comments_node c = [c]"
    by (simp add: sanitized_def list_all_iff extract_comments_node_unchanged)
  then show ?thesis
    unfolding extract_comments_def by (induction f) auto
qed

lemma unwrap_pass_sanitized: "sanitized f \<Longrightarrow> unwrap_pass f = f"
proof -
  assume s: "sanitized f"
  have "unwrap_step i f = f" for i
    using get_tag_sanitized[OF s, of i]
    by (auto simp: unwrap_step_def split: option.splits)
  then show ?thesis
    unfolding unwrap_pass_def by (intro fold_unchanged)
qed

lemma strip_in_node_unchanged: "attrs_allowed x \<Longrightarrow> strip_in_node S x = x"
proof (induction x)
  case (Tag j name attrs contents)
  then have "map (strip_in_node S) contents = contents"
    by (simp add: list_all_iff map_idI)
  moreover have "filter (\<lambda>(attr, v). attr \<in> set (allowed_attrs name)) attrs = attrs"
    using Tag.prems by (auto simp: list_all_iff attr_allowed_def filter_id_conv)
  ultimately show ?case by simp
qed simp_all

lemma attrs_pass_sanitized_unchanged: "sanitized f \<Longrightarrow> attrs_pass f = f"
  by (simp add: attrs_pass_def fold_strip_attrs strip_in_def sanitized_def list_all_iff
      strip_in_node_unchanged map_idI)

lemma sanitize_soup_fixpoint: "sanitized f \<Longrightarrow> sanitize_soup f = f"
  by (simp add: sanitize_soup_def nuke_pass_sanitized junk_pass_sanitized
      extract_comments_sanitized unwrap_pass_sanitized attrs_pass_sanitized_unchanged)

section \<open>Closure and idempotence of the sanitizer\<close>




text \<open>
  Claim C4 as stated fails. In \<open>example_spaced\<close> the tag \<open>font\<close> is unwrapped and leaves
  its blank next to the blank before it; the result is written with two blanks. Read again,
  the two blanks are one string, which the parser replaces by one blank: the second
  application returns another string than the first.
\<close>

theorem sanitize_html_not_idempotent:
  "sanitize_html parse_examples decode_markup example_spaced = Inr example_spaced_once \<and>
   sanitize_html parse_examples decode_markup example_spaced_once = Inr example_spaced_twice \<and>
   example_spaced_twice \<noteq> example_spaced_once"
  by code_simp

text \<open>
  Claim C4, amended. Sanitizing the sanitized tree of a parsed tree changes nothing. For
  the strings: let \<open>sanitize_html\<close> return \<open>y\<close>, and let the library read \<open>y\<close>,
  if it is not empty, as a tree without tag or attribute that is not allowed and without
  comment, which it serializes to \<open>y\<close> again; then \<open>sanitize_html\<close> returns \<open>y\<close>
  for \<open>y\<close>.
\<close>

theorem sanitize_idempotent:
  "(distinct (ids soup) \<longrightarrow> sanitize_soup (sanitize_soup soup) = sanitize_soup soup) \<and>
   (sanitize_html parse decode x = Inr y \<longrightarrow>
    (y \<noteq> [] \<longrightarrow> (\<exists>soup'. parse y = Inr soup' \<and> sanitized soup' \<and> strip (decode soup') = y)) \<longrightarrow>
    sanitize_html parse decode y = Inr y)"
proof (intro conjI impI)
  assume "distinct (ids soup)"
  then have "sanitized (sanitize_soup soup)"
    by (rule sanitize_soup_sanitized)
  then show "sanitize_soup (sanitize_soup soup) = sanitize_soup soup"
    by (rule sanitize_soup_fixpoint)
next
  assume out: "sanitize_html parse decode x = Inr y"
    and reparse: "y \<noteq> [] \<longrightarrow>
      (\<exists>soup'. parse y = Inr soup' \<and> sanitized soup' \<and> strip (decode soup') = y)"
  show "sanitize_html parse decode y = Inr y"
  proof (cases "y = []")
    case True
    then show ?thesis by (simp add: sanitize_html_def)
  next
    case False
    from out False have long: "length y > 50"
      by (auto simp: sanitize_html_def Let_def split: if_splits sum.splits)
    from reparse False obtain soup' where
      s: "parse y = Inr soup'" "sanitized soup'" "strip (decode soup') = y"
      by blast
    from s(2) have "sanitize_soup soup' = soup'"
      by (rule sanitize_soup_fixpoint)
    with s long False show ?thesis
      by (simp add: sanitize_html_def Let_def)
  qed
qed

theorem sanitize_idempotent_witness:
  "sanitize_soup (sanitize_soup example_soup) = sanitize_soup example_soup \<and>
   sanitize_html parse_text decode_text ('' '' @ replicate 51 CHR ''a'' @ '' '')
     = Inr (replicate 51 CHR ''a'') \<and>
   sanitize_html parse_text decode_text (replicate 51 CHR ''a'') = Inr (replicate 51 CHR ''a'') \<and>
   sanitize_html parse_examples decode_markup example_spaced_twice = Inr example_spaced_twice"
proof -
  let ?x = "'' '' @ replicate 51 CHR ''a'' @ '' ''"
  let ?y = "replicate 51 CHR ''a''"
  have d: "distinct (ids example_soup)"
    by code_simp
  have o: "sanitize_html parse_text decode_text ?x = Inr ?y"
    by code_simp
  have st: "strip ?y = ?y"
    by code_simp
  have r: "?y \<noteq> [] \<longrightarrow>
      (\<exists>soup'. parse_text ?y = Inr soup' \<and> sanitized soup' \<and> strip (decode_text soup') = ?y)"
    using st by (simp add: parse_text_def sanitized_def)
  from sanitize_idempotent[of example_soup parse_text decode_text ?x ?y] d o r
  have 1: "sanitize_soup (sanitize_soup example_soup) = sanitize_soup example_soup \<and>
           sanitize_html parse_text decode_text ?y = Inr ?y"
    by blast
  let ?t = "[Tag 0 ''p'' [] [NavigableString example_sentence], NavigableString '' '',
             Tag 1 ''p'' [] [NavigableString ''B'']]"
  have o': "sanitize_html parse_examples decode_markup example_spaced_once
            = Inr example_spaced_twice"
    by code_simp
  have p': "parse_examples example_spaced_twice = Inr ?t"
    by code_simp
  have s': "sanitized ?t"
    by code_simp
  have e': "strip (decode_markup ?t) = example_spaced_twice"
    by code_simp
  from p' s' e'
  have r': "example_spaced_twice \<noteq> [] \<longrightarrow>
      (\<exists>soup'. parse_examples example_spaced_twice = Inr soup' \<and> sanitized soup' \<and>
               strip (decode_markup soup') = example_spaced_twice)"
    by blast
  from sanitize_idempotent[of example_soup parse_examples decode_markup
      example_spaced_once example_spaced_twice] o' r'
  have 2: "sanitize_html parse_examples decode_markup example_spaced_twice
           = Inr example_spaced_twice"
    by blast
  from 1 o 2 show ?thesis by blast
qed

end
